theory Spec2Isabelle
  imports Complex_Main "HOL-Library.Sublist" "HOL-Library.Log_Nat"
begin

section \<open>The host environment of \<open>npm-api.ts\<close>\<close>

text \<open>
  Strings are \<^typ>\<open>string\<close>: the text of a well-formed JavaScript string, one \<^typ>\<open>char\<close>
  per UTF-8 byte. The code only ever searches for, strips or appends ASCII text, and an
  ASCII byte never occurs inside a multi-byte character, so these operations agree with the
  source's operations on UTF-16 code units. An integer of a JSON body is an \<^typ>\<open>int\<close>,
  the literal as it was sent, and \<open>response.status\<close> a \<^typ>\<open>nat\<close>; where the code
  computes with a count, it computes with the double the literal was parsed to.

  A thrown value or a rejected promise is an \<open>error\<close>; an \<open>async\<close> function returns
  \<open>error + 'a\<close>, \<open>Inl\<close> the rejection.
\<close>

datatype error = Error (message: string)

text \<open>
  The \<open>Response\<close> of \<open>fetch\<close>: \<open>body_text\<close> is what \<open>response.text()\<close> resolves to and
  \<open>body_json\<close> the outcome of \<open>response.json()\<close>, read at the type \<open>'j\<close> the caller casts
  it to; the latter rejects when the body is not JSON.
\<close>

record 'j response =
  ok :: bool
  status :: nat
  body_text :: string
  body_json :: "error + 'j"

text \<open>
  The network is a parameter: a server answers a request for a URL, knowing the requests
  issued before it, with a response or a rejection (no connection). The state threaded
  through every operation is the list of URLs requested so far, oldest first.
\<close>

type_synonym 'j server = "string list \<Rightarrow> string \<Rightarrow> error + 'j response"

definition fetch :: "'j server \<Rightarrow> string \<Rightarrow> string list \<Rightarrow> (error + 'j response) \<times> string list" where
  "fetch srv url reqs = (srv reqs url, reqs @ [url])"

text \<open>\<open>a ?? b\<close>: the default \<open>b\<close> where \<open>a\<close> is \<open>undefined\<close> or \<open>null\<close>.\<close>

definition nullish :: "'a option \<Rightarrow> 'a \<Rightarrow> 'a" where
  "nullish a b = (case a of None \<Rightarrow> b | Some v \<Rightarrow> v)"

text \<open>The decimal text of a non-negative integer, as a template literal prints a number.\<close>

definition digit :: "nat \<Rightarrow> char" where
  "digit n = ''0123456789ABCDEF'' ! n"

fun show_nat :: "nat \<Rightarrow> string" where
  "show_nat n = (if n < 10 then [digit n] else show_nat (n div 10) @ [digit (n mod 10)])"

declare show_nat.simps [simp del]

text \<open>
  \<open>encodeURIComponent\<close>: the unreserved characters stay, every other byte of the UTF-8
  text becomes \<open>%XX\<close> in upper-case hexadecimal.
\<close>

definition unreserved :: "char \<Rightarrow> bool" where
  "unreserved c =
     (c \<in> set ''ABCDEFGHIJKLMNOPQRSTUVWXYZabcdefghijklmnopqrstuvwxyz0123456789-_.!~*()''
      \<or> c = CHR 0x27)"

definition percent :: "char \<Rightarrow> string" where
  "percent c = [CHR ''%'', digit (of_char c div 16), digit (of_char c mod 16)]"

definition encodeURIComponent :: "string \<Rightarrow> string" where
  "encodeURIComponent s = concat (map (\<lambda>c. if unreserved c then [c] else percent c) s)"

section \<open>Numbers\<close>

text \<open>
  A JavaScript number is an IEEE 754 double: a finite value, one of the two infinities or
  \<open>NaN\<close>. A finite double is kept as the rational it denotes; the sign of zero is not
  kept (the code never divides by zero: both divisions are guarded).
\<close>

datatype number = Finite rat | PosInf | NegInf | NaN

text \<open>
  Rounding to the nearest double, a tie going to the even significand: \<open>exponent x\<close>
  is the largest \<open>e\<close> with \<open>2^e \<le> |x|\<close>, a double near \<open>x\<close> is a multiple of \<open>ulp x\<close>
  (53 bits of significand, subnormal below \<open>2^-1022\<close>), and a result beyond the largest
  double is infinite.
\<close>

definition round_even :: "rat \<Rightarrow> int" where
  "round_even x =
     (let f = \<lfloor>x\<rfloor>; r = x - of_int f
      in if r < 1 / 2 then f else if 1 / 2 < r then f + 1 else if even f then f else f + 1)"

definition exponent :: "rat \<Rightarrow> int" where
  "exponent x =
     (let (p, q) = quotient_of \<bar>x\<bar>; e = bitlen p - bitlen q
      in if 2 powi e \<le> \<bar>x\<bar> then e else e - 1)"

definition ulp :: "rat \<Rightarrow> rat" where
  "ulp x = 2 powi (max (exponent x - 52) (- 1074))"

definition max_double :: rat where
  "max_double = (2 ^ 53 - 1) * 2 ^ 971"

definition fl :: "rat \<Rightarrow> number" where
  "fl x =
     (if x = 0 then Finite 0
      else let r = of_int (round_even (x / ulp x)) * ulp x
           in if max_double < r then PosInf
              else if r < - max_double then NegInf
              else Finite r)"

text \<open>The number a JSON integer literal is parsed to.\<close>

definition num :: "int \<Rightarrow> number" where
  "num n = fl (of_int n)"

text \<open>\<open>a + b\<close>, \<open>a / b\<close>, \<open>a * b\<close> and \<open>a < b\<close>.\<close>

definition negative :: "number \<Rightarrow> bool" where
  "negative a = (case a of Finite x \<Rightarrow> x < 0 | NegInf \<Rightarrow> True | _ \<Rightarrow> False)"

fun num_add :: "number \<Rightarrow> number \<Rightarrow> number" where
  "num_add (Finite x) (Finite y) = fl (x + y)"
| "num_add NaN b = NaN"
| "num_add a NaN = NaN"
| "num_add PosInf NegInf = NaN"
| "num_add NegInf PosInf = NaN"
| "num_add PosInf b = PosInf"
| "num_add NegInf b = NegInf"
| "num_add a b = b"

fun num_div :: "number \<Rightarrow> number \<Rightarrow> number" where
  "num_div (Finite x) (Finite y) =
     (if y = 0 then (if x = 0 then NaN else if 0 < x then PosInf else NegInf) else fl (x / y))"
| "num_div NaN b = NaN"
| "num_div a NaN = NaN"
| "num_div (Finite x) b = Finite 0"
| "num_div a (Finite y) = (if negative a = (y < 0) then PosInf else NegInf)"
| "num_div a b = NaN"

fun num_mul :: "number \<Rightarrow> number \<Rightarrow> number" where
  "num_mul (Finite x) (Finite y) = fl (x * y)"
| "num_mul NaN b = NaN"
| "num_mul a NaN = NaN"
| "num_mul a b =
     (if a = Finite 0 \<or> b = Finite 0 then NaN
      else if negative a = negative b then PosInf else NegInf)"

fun num_less :: "number \<Rightarrow> number \<Rightarrow> bool" where
  "num_less (Finite x) (Finite y) = (x < y)"
| "num_less NaN b = False"
| "num_less a NaN = False"
| "num_less a NegInf = False"
| "num_less NegInf b = True"
| "num_less PosInf b = False"
| "num_less a PosInf = True"

text \<open>
  \<open>Math.round\<close> and \<open>Math.floor\<close> give the largest integer not above \<open>x + 1/2\<close> and
  not above \<open>x\<close>, both doubles when \<open>x\<close> is one. \<open>Math.max\<close> and \<open>Math.min\<close> start from
  \<open>-Infinity\<close> and \<open>Infinity\<close>, and are \<open>NaN\<close> once an argument is.
\<close>

definition Math_round :: "number \<Rightarrow> number" where
  "Math_round a = (case a of Finite x \<Rightarrow> Finite (of_int \<lfloor>x + 1 / 2\<rfloor>) | _ \<Rightarrow> a)"

definition Math_floor :: "number \<Rightarrow> number" where
  "Math_floor a = (case a of Finite x \<Rightarrow> Finite (of_int \<lfloor>x\<rfloor>) | _ \<Rightarrow> a)"

definition max2 :: "number \<Rightarrow> number \<Rightarrow> number" where
  "max2 a b = (if a = NaN \<or> b = NaN then NaN else if num_less a b then b else a)"

definition min2 :: "number \<Rightarrow> number \<Rightarrow> number" where
  "min2 a b = (if a = NaN \<or> b = NaN then NaN else if num_less b a then b else a)"

definition Math_max :: "number list \<Rightarrow> number" where
  "Math_max xs = foldl max2 NegInf xs"

definition Math_min :: "number list \<Rightarrow> number" where
  "Math_min xs = foldl min2 PosInf xs"

section \<open>Constants and records\<close>

definition REGISTRY :: string where
  "REGISTRY = ''https://registry.npmjs.org''"

definition API :: string where
  "API = ''https://api.npmjs.org''"

definition BUNDLEPHOBIA :: string where
  "BUNDLEPHOBIA = ''https://bundlephobia.com/api/size''"

text \<open>A \<open>Record<string, string>\<close> is an association list in the order of the JSON object.\<close>

type_synonym dict = "(string \<times> string) list"

record PackageInfo =
  pi_name :: string
  pi_version :: string
  pi_description :: string
  pi_keywords :: "string list"
  pi_license :: string
  pi_homepage :: string
  pi_repository :: string
  pi_dependencies :: dict
  pi_devDependencies :: dict

record SearchResult =
  sr_name :: string
  sr_version :: string
  sr_description :: string
  sr_keywords :: "string list"
  sr_downloads :: int

record BundleSize =
  bs_name :: string
  bs_version :: string
  bs_size :: int
  bs_gzip :: int
  bs_dependencyCount :: int

record DownloadStats =
  ds_package :: string
  ds_downloads :: int
  ds_start :: string
  ds_end :: string

section \<open>fetchJson\<close>

definition api_error :: "nat \<Rightarrow> string \<Rightarrow> error" where
  "api_error st txt = Error (''API error ('' @ show_nat st @ ''): '' @ txt)"

definition fetchJson :: "'j server \<Rightarrow> string \<Rightarrow> string list \<Rightarrow> (error + 'j) \<times> string list" where
  "fetchJson srv url reqs =
     (let (r, reqs') = fetch srv url reqs
      in (case r of
            Inl e \<Rightarrow> Inl e
          | Inr response \<Rightarrow>
              if \<not> ok response then Inl (api_error (status response) (body_text response))
              else body_json response,
          reqs'))"

section \<open>searchPackages\<close>

record search_package =
  sp_name :: string
  sp_version :: string
  sp_description :: "string option"
  sp_keywords :: "string list option"

record search_object =
  so_package :: search_package
  so_searchScore :: "rat option"

record search_data =
  sd_objects :: "search_object list"

definition search_url :: "string \<Rightarrow> nat \<Rightarrow> string" where
  "search_url query sz =
     REGISTRY @ ''/-/v1/search?text='' @ encodeURIComponent query @ ''&size='' @ show_nat sz"

definition search_result :: "search_object \<Rightarrow> SearchResult" where
  "search_result obj =
     \<lparr> sr_name = sp_name (so_package obj),
       sr_version = sp_version (so_package obj),
       sr_description = nullish (sp_description (so_package obj)) [],
       sr_keywords = nullish (sp_keywords (so_package obj)) [],
       sr_downloads = 0 \<rparr>"

definition searchPackages ::
  "search_data server \<Rightarrow> string \<Rightarrow> nat option \<Rightarrow> string list \<Rightarrow> (error + SearchResult list) \<times> string list" where
  "searchPackages srv query sz reqs =
     (let (r, reqs') = fetchJson srv (search_url query (nullish sz 10)) reqs
      in (case r of
            Inl e \<Rightarrow> Inl e
          | Inr data \<Rightarrow> Inr (map search_result (sd_objects data)),
          reqs'))"

section \<open>getPackageInfo\<close>

datatype repository = RepoString string | RepoObject "string option"

record version_data =
  vd_dependencies :: "dict option"
  vd_devDependencies :: "dict option"

record package_document =
  pd_name :: string
  pd_dist_tags :: "dict option"
  pd_versions :: "(string \<times> version_data) list option"
  pd_description :: "string option"
  pd_license :: "string option"
  pd_homepage :: "string option"
  pd_repository :: "repository option"
  pd_keywords :: "string list option"

text \<open>\<open>obj?.[key]\<close>: the entry of an object that may itself be absent.\<close>

definition opt_lookup :: "(string \<times> 'v) list option \<Rightarrow> string \<Rightarrow> 'v option" where
  "opt_lookup obj key = (case obj of None \<Rightarrow> None | Some kvs \<Rightarrow> map_of kvs key)"

definition latestVersion :: "package_document \<Rightarrow> string" where
  "latestVersion data = nullish (opt_lookup (pd_dist_tags data) ''latest'') []"

definition latestData :: "package_document \<Rightarrow> version_data" where
  "latestData data =
     nullish (opt_lookup (pd_versions data) (latestVersion data))
       \<lparr> vd_dependencies = None, vd_devDependencies = None \<rparr>"

definition repoUrl :: "package_document \<Rightarrow> string" where
  "repoUrl data =
     (case pd_repository data of
        Some (RepoString s) \<Rightarrow> s
      | Some (RepoObject url) \<Rightarrow> nullish url []
      | None \<Rightarrow> [])"

text \<open>\<open>.replace(/^git\+/, "")\<close> and \<open>.replace(/\.git$/, "")\<close>: one match each, at the ends.\<close>

definition strip_git_plus :: "string \<Rightarrow> string" where
  "strip_git_plus s = (if take 4 s = ''git+'' then drop 4 s else s)"

definition strip_dot_git :: "string \<Rightarrow> string" where
  "strip_dot_git s =
     (if 4 \<le> length s \<and> drop (length s - 4) s = ''.git'' then take (length s - 4) s else s)"

definition normalize_repository :: "string \<Rightarrow> string" where
  "normalize_repository s = strip_dot_git (strip_git_plus s)"

definition package_info :: "package_document \<Rightarrow> PackageInfo" where
  "package_info data =
     \<lparr> pi_name = pd_name data,
       pi_version = latestVersion data,
       pi_description = nullish (pd_description data) [],
       pi_keywords = nullish (pd_keywords data) [],
       pi_license = nullish (pd_license data) ''Unknown'',
       pi_homepage = nullish (pd_homepage data) [],
       pi_repository = normalize_repository (repoUrl data),
       pi_dependencies = nullish (vd_dependencies (latestData data)) [],
       pi_devDependencies = nullish (vd_devDependencies (latestData data)) [] \<rparr>"

definition package_url :: "string \<Rightarrow> string" where
  "package_url name = REGISTRY @ ''/'' @ encodeURIComponent name"

definition getPackageInfo ::
  "package_document server \<Rightarrow> string \<Rightarrow> string list \<Rightarrow> (error + PackageInfo) \<times> string list" where
  "getPackageInfo srv name reqs =
     (let (r, reqs') = fetchJson srv (package_url name) reqs
      in (case r of Inl e \<Rightarrow> Inl e | Inr data \<Rightarrow> Inr (package_info data), reqs'))"

section \<open>getDownloads and compareDownloads\<close>

record point_data =
  pt_package :: "string option"
  pt_downloads :: int
  pt_start :: string
  pt_end :: string

definition point_url :: "string \<Rightarrow> string \<Rightarrow> string" where
  "point_url period name = API @ ''/downloads/point/'' @ period @ ''/'' @ encodeURIComponent name"

definition download_stats :: "string \<Rightarrow> point_data \<Rightarrow> DownloadStats" where
  "download_stats name data =
     \<lparr> ds_package = nullish (pt_package data) name,
       ds_downloads = pt_downloads data,
       ds_start = pt_start data,
       ds_end = pt_end data \<rparr>"

definition getDownloads ::
  "point_data server \<Rightarrow> string \<Rightarrow> string option \<Rightarrow> string list \<Rightarrow> (error + DownloadStats) \<times> string list" where
  "getDownloads srv name period reqs =
     (let (r, reqs') = fetchJson srv (point_url (nullish period ''last-month'') name) reqs
      in (case r of Inl e \<Rightarrow> Inl e | Inr data \<Rightarrow> Inr (download_stats name data), reqs'))"

text \<open>
  \<open>packages.map((pkg) => getDownloads(pkg, period))\<close>: each call runs up to its \<open>fetch\<close>
  before the next one starts, so the requests go out in the order of the input; the list
  holds what each promise will settle to.
\<close>

fun map_getDownloads ::
  "point_data server \<Rightarrow> string list \<Rightarrow> string \<Rightarrow> string list \<Rightarrow> (error + DownloadStats) list \<times> string list" where
  "map_getDownloads srv [] period reqs = ([], reqs)"
| "map_getDownloads srv (pkg # pkgs) period reqs =
     (let (r, reqs') = getDownloads srv pkg (Some period) reqs;
          (rs, reqs'') = map_getDownloads srv pkgs period reqs'
      in (r # rs, reqs''))"

text \<open>
  \<open>Promise.all\<close>. The schedule \<open>sched\<close> lists the indices of the promises in the order in
  which they settle; an index that never occurs is a promise that never settles. A
  fulfilled promise stores its value at its own index, and the result is fulfilled with
  the stored values once none is missing; the first rejection rejects the result. The
  outcome \<open>None\<close> is a result that stays pending.
\<close>

fun settle :: "nat list \<Rightarrow> (error + 'a) list \<Rightarrow> 'a option list \<Rightarrow> (error + 'a list) option" where
  "settle [] promises vals = None"
| "settle (i # sched) promises vals =
     (if length promises \<le> i \<or> vals ! i \<noteq> None then settle sched promises vals
      else (case promises ! i of
              Inl e \<Rightarrow> Some (Inl e)
            | Inr v \<Rightarrow>
                (case those (vals[i := Some v]) of
                   Some vs \<Rightarrow> Some (Inr vs)
                 | None \<Rightarrow> settle sched promises (vals[i := Some v]))))"

definition Promise_all :: "nat list \<Rightarrow> (error + 'a) list \<Rightarrow> (error + 'a list) option" where
  "Promise_all sched promises =
     (if promises = [] then Some (Inr [])
      else settle sched promises (replicate (length promises) None))"

definition compareDownloads ::
  "nat list \<Rightarrow> point_data server \<Rightarrow> string list \<Rightarrow> string option \<Rightarrow> string list \<Rightarrow>
   (error + DownloadStats list) option \<times> string list" where
  "compareDownloads sched srv packages period reqs =
     (let (promises, reqs') = map_getDownloads srv packages (nullish period ''last-month'') reqs
      in (Promise_all sched promises, reqs'))"

section \<open>getBundleSize\<close>

record bundle_data =
  bd_name :: "string option"
  bd_version :: "string option"
  bd_size :: "int option"
  bd_gzip :: "int option"
  bd_dependencyCount :: "int option"

text \<open>\<open>s.split(sep)\<close> for a separator of one character: never the empty array.\<close>

fun split_on :: "char \<Rightarrow> string \<Rightarrow> string list" where
  "split_on sep [] = [[]]"
| "split_on sep (c # cs) =
     (if c = sep then [] # split_on sep cs
      else (case split_on sep cs of [] \<Rightarrow> [[c]] | x # xs \<Rightarrow> (c # x) # xs))"

text \<open>\<open>xs[i]\<close>: \<open>undefined\<close> out of range.\<close>

definition at_index :: "'a list \<Rightarrow> nat \<Rightarrow> 'a option" where
  "at_index xs i = (if i < length xs then Some (xs ! i) else None)"

definition pkgSpec :: "string \<Rightarrow> string" where
  "pkgSpec name = (if CHR ''@'' \<in> set name then name else name @ ''@latest'')"

definition bundle_url :: "string \<Rightarrow> string" where
  "bundle_url name = BUNDLEPHOBIA @ ''?package='' @ encodeURIComponent (pkgSpec name)"

definition bundle_size :: "string \<Rightarrow> bundle_data \<Rightarrow> BundleSize" where
  "bundle_size name data =
     \<lparr> bs_name = nullish (bd_name data) (nullish (at_index (split_on (CHR ''@'') name) 0) name),
       bs_version = nullish (bd_version data) ''latest'',
       bs_size = nullish (bd_size data) 0,
       bs_gzip = nullish (bd_gzip data) 0,
       bs_dependencyCount = nullish (bd_dependencyCount data) 0 \<rparr>"

definition getBundleSize ::
  "bundle_data server \<Rightarrow> string \<Rightarrow> string list \<Rightarrow> (error + BundleSize) \<times> string list" where
  "getBundleSize srv name reqs =
     (let (r, reqs') = fetchJson srv (bundle_url name) reqs
      in (case r of Inl e \<Rightarrow> Inl e | Inr data \<Rightarrow> Inr (bundle_size name data), reqs'))"

section \<open>getVulnerabilities and getDependencyTree\<close>

definition advisory_text :: "string \<Rightarrow> string \<Rightarrow> string" where
  "advisory_text name info_name =
     ''Vulnerability data for '' @ [CHR 0x22] @ name @ [CHR 0x22]
     @ '' requires '' @ [CHR 0x60] @ ''npm audit'' @ [CHR 0x60]
     @ '' in a project that uses it.'' @ [CHR 0x0A, CHR 0x0A]
     @ ''Public APIs: Run '' @ [CHR 0x60] @ ''npm audit'' @ [CHR 0x60]
     @ '' in your project, or check advisories at:'' @ [CHR 0x0A]
     @ ''https://github.com/advisories?query='' @ encodeURIComponent info_name
     @ [CHR 0x0A, CHR 0x0A]
     @ ''For automated scanning, consider Snyk or Dependabot.''"

text \<open>The error of the \<open>catch\<close> block: every thrown value of the model is an \<open>Error\<close>.\<close>

definition vulnerability_error :: "error \<Rightarrow> error" where
  "vulnerability_error err =
     Error (''Could not fetch package info for vulnerability check: '' @ message err)"

definition getVulnerabilities ::
  "package_document server \<Rightarrow> string \<Rightarrow> string list \<Rightarrow> (error + string) \<times> string list" where
  "getVulnerabilities srv name reqs =
     (let (r, reqs') = getPackageInfo srv name reqs
      in (case r of
            Inr info \<Rightarrow> Inr (advisory_text name (pi_name info))
          | Inl err \<Rightarrow> Inl (vulnerability_error err),
          reqs'))"

text \<open>\<open>lines.join(sep)\<close>.\<close>

fun join :: "string \<Rightarrow> string list \<Rightarrow> string" where
  "join sep [] = []"
| "join sep [x] = x"
| "join sep (x # y # ys) = x @ sep @ join sep (y # ys)"

text \<open>The branch connector of a tree line, three box-drawing characters and a space, in UTF-8.\<close>

definition branch :: string where
  "branch = [CHR 0xE2, CHR 0x94, CHR 0x9C, CHR 0xE2, CHR 0x94, CHR 0x80,
             CHR 0xE2, CHR 0x94, CHR 0x80, CHR 0x20]"

definition dep_line :: "string \<times> string \<Rightarrow> string" where
  "dep_line e = branch @ fst e @ ''@'' @ snd e"

definition dependency_tree :: "PackageInfo \<Rightarrow> string" where
  "dependency_tree info =
     (let depEntries = pi_dependencies info;
          devDepEntries = pi_devDependencies info;
          lines0 = [pi_name info @ ''@'' @ pi_version info, []];
          lines1 = (if length depEntries > 0
                    then lines0 @ [''dependencies:''] @ map dep_line depEntries else lines0);
          lines2 = (if length devDepEntries > 0
                    then lines1 @ [[], ''devDependencies:''] @ map dep_line devDepEntries
                    else lines1);
          lines3 = (if length depEntries = 0 \<and> length devDepEntries = 0
                    then lines2 @ [''(no dependencies)''] else lines2)
      in join [CHR 0x0A] lines3)"

definition getDependencyTree ::
  "package_document server \<Rightarrow> string \<Rightarrow> string list \<Rightarrow> (error + string) \<times> string list" where
  "getDependencyTree srv name reqs =
     (let (r, reqs') = getPackageInfo srv name reqs
      in (case r of Inl e \<Rightarrow> Inl e | Inr info \<Rightarrow> Inr (dependency_tree info), reqs'))"

section \<open>getDownloadTrends\<close>

record daily_point =
  dp_day :: string
  dp_downloads :: int

record range_data =
  rd_downloads :: "daily_point list option"
  rd_start :: string
  rd_end :: string
  rd_package :: "string option"

text \<open>The locals \<open>total\<close>, \<open>avg\<close>, \<open>max\<close> and \<open>min\<close>; a count is read as the number it was parsed to.\<close>

definition total_of :: "daily_point list \<Rightarrow> number" where
  "total_of daily = foldl (\<lambda>sum d. num_add sum (num (dp_downloads d))) (Finite 0) daily"

definition avg_of :: "daily_point list \<Rightarrow> number" where
  "avg_of daily =
     (if length daily > 0
      then Math_round (num_div (total_of daily) (Finite (of_nat (length daily))))
      else Finite 0)"

definition max_of :: "daily_point list \<Rightarrow> number" where
  "max_of daily =
     (if length daily > 0 then Math_max (map (\<lambda>d. num (dp_downloads d)) daily) else Finite 0)"

definition min_of :: "daily_point list \<Rightarrow> number" where
  "min_of daily =
     (if length daily > 0 then Math_min (map (\<lambda>d. num (dp_downloads d)) daily) else Finite 0)"

text \<open>
  The ramp \<open>blocks\<close> is a string of eight characters, U+2581 to U+2588, each one UTF-16
  code unit; a sparkline is the list of its code units, so that its length is the
  \<open>length\<close> of the source's string.
\<close>

type_synonym glyph = nat

definition blocks :: "glyph list" where
  "blocks = [0x2581, 0x2582, 0x2583, 0x2584, 0x2585, 0x2586, 0x2587, 0x2588]"

definition level_index :: "number \<Rightarrow> number \<Rightarrow> number" where
  "level_index d mx =
     min2 (Math_floor (num_mul (num_div d mx) (Finite (of_nat (length blocks) - 1))))
          (Finite (of_nat (length blocks) - 1))"

text \<open>
  \<open>blocks[idx]\<close> is \<open>undefined\<close> when \<open>idx\<close> is not an index of \<open>blocks\<close>, and \<open>join\<close>
  prints \<open>undefined\<close> as the empty string.
\<close>

definition glyph_at :: "number \<Rightarrow> glyph list" where
  "glyph_at idx =
     (case idx of
        Finite i \<Rightarrow>
          if of_int \<lfloor>i\<rfloor> = i \<and> 0 \<le> i \<and> i < of_nat (length blocks)
          then [blocks ! nat \<lfloor>i\<rfloor>] else []
      | _ \<Rightarrow> [])"

definition sparkline_of :: "daily_point list \<Rightarrow> glyph list" where
  "sparkline_of daily =
     (if length daily > 0 \<and> num_less (Finite 0) (max_of daily)
      then concat (map (\<lambda>d. glyph_at (level_index (num (dp_downloads d)) (max_of daily))) daily)
      else [])"

text \<open>The values the report is printed from, the locals of \<open>getDownloadTrends\<close>.\<close>

record trend_values =
  tr_package :: string
  tr_start :: string
  tr_end :: string
  tr_total :: number
  tr_avg :: number
  tr_min :: number
  tr_max :: number
  tr_sparkline :: "glyph list"
  tr_rows :: "daily_point list"

definition trend_values :: "string \<Rightarrow> range_data \<Rightarrow> trend_values" where
  "trend_values name data =
     (let daily = nullish (rd_downloads data) []
      in \<lparr> tr_package = nullish (rd_package data) name,
           tr_start = rd_start data,
           tr_end = rd_end data,
           tr_total = total_of daily,
           tr_avg = avg_of daily,
           tr_min = min_of daily,
           tr_max = max_of daily,
           tr_sparkline = sparkline_of daily,
           tr_rows = drop (length daily - 14) daily \<rparr>)"

text \<open>
  A code unit outside the surrogates as it stands in the text of the report, in UTF-8;
  the dash of the heading is U+2014.
\<close>

definition utf8 :: "glyph \<Rightarrow> string" where
  "utf8 u =
     (if u < 0x80 then [char_of u]
      else if u < 0x800 then [char_of (0xC0 + u div 64), char_of (0x80 + u mod 64)]
      else [char_of (0xE0 + u div 4096), char_of (0x80 + u div 64 mod 64),
            char_of (0x80 + u mod 64)])"

definition em_dash :: string where
  "em_dash = utf8 0x2014"

text \<open>
  \<open>n.toLocaleString()\<close> prints a number in the locale of the host: the parameter
  \<open>toLocaleString\<close>. \<open>.filter(Boolean)\<close> drops the empty lines.
\<close>

definition table_row :: "(number \<Rightarrow> string) \<Rightarrow> daily_point \<Rightarrow> string" where
  "table_row toLocaleString d =
     ''| '' @ dp_day d @ '' | '' @ toLocaleString (num (dp_downloads d)) @ '' |''"

definition report_text :: "(number \<Rightarrow> string) \<Rightarrow> trend_values \<Rightarrow> string" where
  "report_text toLocaleString v =
     (let sparkline = concat (map utf8 (tr_sparkline v));
          tableRows = join [CHR 0x0A] (map (table_row toLocaleString) (tr_rows v))
      in join [CHR 0x0A] (filter (\<lambda>line. line \<noteq> [])
           [''## '' @ tr_package v @ '' '' @ em_dash @ '' '' @ tr_start v @ '' to '' @ tr_end v,
            [],
            ''Total: '' @ toLocaleString (tr_total v)
              @ '' | Avg/day: '' @ toLocaleString (tr_avg v)
              @ '' | Min: '' @ toLocaleString (tr_min v)
              @ '' | Max: '' @ toLocaleString (tr_max v),
            [],
            (if sparkline \<noteq> [] then ''Trend: '' @ sparkline else []),
            (if sparkline \<noteq> [] then [] else []),
            ''| Day | Downloads |'',
            ''|-----|-----------|'',
            tableRows]))"

definition range_url :: "string \<Rightarrow> string \<Rightarrow> string" where
  "range_url period name = API @ ''/downloads/range/'' @ period @ ''/'' @ encodeURIComponent name"

definition getDownloadTrends ::
  "(number \<Rightarrow> string) \<Rightarrow> range_data server \<Rightarrow> string \<Rightarrow> string option \<Rightarrow> string list \<Rightarrow>
   (error + string) \<times> string list" where
  "getDownloadTrends toLocaleString srv name period reqs =
     (let (r, reqs') = fetchJson srv (range_url (nullish period ''last-month'') name) reqs
      in (case r of
            Inl e \<Rightarrow> Inl e
          | Inr data \<Rightarrow> Inr (report_text toLocaleString (trend_values name data)),
          reqs'))"

section \<open>Properties\<close>

subsection \<open>Results and requests of the operations\<close>

lemma fetchJson_ok:
  assumes "srv reqs url = Inr resp" and "ok resp"
  shows "fst (fetchJson srv url reqs) = body_json resp"
  using assms by (simp add: fetchJson_def fetch_def)

lemma fetchJson_requests: "snd (fetchJson srv url reqs) = reqs @ [url]"
  by (simp add: fetchJson_def fetch_def)

lemma fetchJson_not_ok:
  assumes "srv reqs url = Inr resp" and "\<not> ok resp"
  shows "fst (fetchJson srv url reqs) = Inl (api_error (status resp) (body_text resp))"
  using assms by (simp add: fetchJson_def fetch_def)

lemma api_error_contains:
  "sublist (show_nat st) (message (api_error st txt)) \<and> sublist txt (message (api_error st txt))"
proof -
  have "message (api_error st txt) = ''API error ('' @ show_nat st @ ''): '' @ txt"
    by (simp add: api_error_def)
  moreover have "sublist (show_nat st) (''API error ('' @ show_nat st @ ''): '' @ txt)"
    by (rule sublist_appendI)
  moreover have "sublist txt ((''API error ('' @ show_nat st @ ''): '') @ txt)"
    by (rule sublist_append_leftI)
  ultimately show ?thesis by simp
qed

lemma searchPackages_fst:
  "fst (searchPackages srv query sz reqs) =
     (case fst (fetchJson srv (search_url query (nullish sz 10)) reqs) of
        Inl e \<Rightarrow> Inl e | Inr data \<Rightarrow> Inr (map search_result (sd_objects data)))"
  by (simp add: searchPackages_def split: prod.splits)

lemma getPackageInfo_fst:
  "fst (getPackageInfo srv name reqs) =
     (case fst (fetchJson srv (package_url name) reqs) of
        Inl e \<Rightarrow> Inl e | Inr data \<Rightarrow> Inr (package_info data))"
  by (simp add: getPackageInfo_def split: prod.splits)

lemma getDownloads_fst:
  "fst (getDownloads srv name period reqs) =
     (case fst (fetchJson srv (point_url (nullish period ''last-month'') name) reqs) of
        Inl e \<Rightarrow> Inl e | Inr data \<Rightarrow> Inr (download_stats name data))"
  by (simp add: getDownloads_def split: prod.splits)

lemma getDownloads_requests:
  "snd (getDownloads srv name period reqs) = reqs @ [point_url (nullish period ''last-month'') name]"
  using fetchJson_requests [of srv "point_url (nullish period ''last-month'') name" reqs]
  by (auto simp: getDownloads_def split: prod.splits)

lemma getBundleSize_fst:
  "fst (getBundleSize srv name reqs) =
     (case fst (fetchJson srv (bundle_url name) reqs) of
        Inl e \<Rightarrow> Inl e | Inr data \<Rightarrow> Inr (bundle_size name data))"
  by (simp add: getBundleSize_def split: prod.splits)

lemma getBundleSize_requests:
  "snd (getBundleSize srv name reqs) = reqs @ [bundle_url name]"
  using fetchJson_requests [of srv "bundle_url name" reqs]
  by (auto simp: getBundleSize_def split: prod.splits)

lemma getDownloadTrends_fst:
  "fst (getDownloadTrends loc srv name period reqs) =
     (case fst (fetchJson srv (range_url (nullish period ''last-month'') name) reqs) of
        Inl e \<Rightarrow> Inl e | Inr data \<Rightarrow> Inr (report_text loc (trend_values name data)))"
  by (simp add: getDownloadTrends_def split: prod.splits)

lemma getVulnerabilities_fst:
  "fst (getVulnerabilities srv name reqs) =
     (case fst (getPackageInfo srv name reqs) of
        Inr info \<Rightarrow> Inr (advisory_text name (pi_name info))
      | Inl err \<Rightarrow> Inl (vulnerability_error err))"
  by (simp add: getVulnerabilities_def split: prod.splits)

lemma getDependencyTree_fst:
  "fst (getDependencyTree srv name reqs) =
     (case fst (getPackageInfo srv name reqs) of
        Inl e \<Rightarrow> Inl e | Inr info \<Rightarrow> Inr (dependency_tree info))"
  by (simp add: getDependencyTree_def split: prod.splits)

lemma vulnerability_error_contains:
  "sublist xs (message err) \<Longrightarrow> sublist xs (message (vulnerability_error err))"
proof -
  assume "sublist xs (message err)"
  then obtain ps ss where "message err = ps @ xs @ ss"
    by (auto simp: sublist_def)
  then have "message (vulnerability_error err) =
      (''Could not fetch package info for vulnerability check: '' @ ps) @ xs @ ss"
    by (simp add: vulnerability_error_def)
  then show ?thesis
    unfolding sublist_def by blast
qed

subsection \<open>Search results\<close>

text \<open>
  C1. Whenever \<open>searchPackages\<close> returns results, whatever the upstream response holds,
  every \<open>SearchResult\<close> of the returned sequence has \<open>downloads = 0\<close>.
\<close>

theorem searchPackages_downloads_zero:
  assumes "fst (searchPackages srv query sz reqs) = Inr rs"
  shows "\<forall>r \<in> set rs. sr_downloads r = 0"
  using assms
  by (auto simp: searchPackages_def search_result_def split: prod.splits sum.splits)

theorem searchPackages_downloads_zero_witness:
  "fst (searchPackages
          (\<lambda>reqs url. Inr \<lparr> ok = True, status = 200, body_text = [],
             body_json = Inr \<lparr> sd_objects =
               [\<lparr> so_package = \<lparr> sp_name = ''lodash'', sp_version = ''4.17.21'',
                     sp_description = Some ''Lodash modular utilities'',
                     sp_keywords = Some [''modules'', ''stdlib'', ''util''] \<rparr>,
                   so_searchScore = None \<rparr>] \<rparr> \<rparr>)
          ''lodash'' (Some 5) [])
   = Inr [\<lparr> sr_name = ''lodash'', sr_version = ''4.17.21'',
             sr_description = ''Lodash modular utilities'',
             sr_keywords = [''modules'', ''stdlib'', ''util''], sr_downloads = 0 \<rparr>]
   \<and> sr_downloads \<lparr> sr_name = ''lodash'', sr_version = ''4.17.21'',
             sr_description = ''Lodash modular utilities'',
             sr_keywords = [''modules'', ''stdlib'', ''util''], sr_downloads = 0 \<rparr> = 0"
  (is "?run = Inr [?r] \<and> _")
proof -
  have run: "?run = Inr [?r]"
    by (simp add: searchPackages_def fetchJson_def fetch_def search_result_def nullish_def)
  from searchPackages_downloads_zero [OF run] have "sr_downloads ?r = 0"
    by (simp del: SearchResult.simps)
  with run show ?thesis by blast
qed

subsection \<open>Repository normalization\<close>

lemma take4_prefix: "take 4 s = ''git+'' \<longleftrightarrow> prefix ''git+'' s"
proof
  assume "take 4 s = ''git+''"
  then have "s = ''git+'' @ drop 4 s"
    using append_take_drop_id [of 4 s] by simp
  then show "prefix ''git+'' s"
    using prefixI by blast
next
  assume "prefix ''git+'' s"
  then obtain zs where "s = ''git+'' @ zs"
    by (auto simp: prefix_def)
  then show "take 4 s = ''git+''"
    by simp
qed

lemma drop4_suffix:
  "4 \<le> length s \<and> drop (length s - 4) s = ''.git'' \<longleftrightarrow> suffix ''.git'' s"
proof
  assume a: "4 \<le> length s \<and> drop (length s - 4) s = ''.git''"
  then have "s = take (length s - 4) s @ ''.git''"
    using append_take_drop_id [of "length s - 4" s] by simp
  then show "suffix ''.git'' s"
    using suffixI by blast
next
  assume "suffix ''.git'' s"
  then obtain zs where "s = zs @ ''.git''"
    by (auto simp: suffix_def)
  then show "4 \<le> length s \<and> drop (length s - 4) s = ''.git''"
    by simp
qed

lemma strip_git_plus_id: "\<not> prefix ''git+'' s \<Longrightarrow> strip_git_plus s = s"
  by (simp add: strip_git_plus_def take4_prefix)

lemma strip_dot_git_id: "\<not> suffix ''.git'' s \<Longrightarrow> strip_dot_git s = s"
  using drop4_suffix [of s] by (auto simp: strip_dot_git_def)

lemma strip_git_plus_length: "length (strip_git_plus s) \<le> length s"
  by (simp add: strip_git_plus_def)

lemma strip_dot_git_length: "length (strip_dot_git s) \<le> length s"
  by (simp add: strip_dot_git_def)

lemma strip_git_plus_shorter: "prefix ''git+'' s \<Longrightarrow> length (strip_git_plus s) < length s"
proof -
  assume "prefix ''git+'' s"
  then obtain zs where "s = ''git+'' @ zs"
    by (auto simp: prefix_def)
  then show ?thesis
    by (simp add: strip_git_plus_def)
qed

lemma strip_dot_git_shorter: "suffix ''.git'' s \<Longrightarrow> length (strip_dot_git s) < length s"
proof -
  assume "suffix ''.git'' s"
  then obtain zs where "s = zs @ ''.git''"
    by (auto simp: suffix_def)
  then show ?thesis
    by (simp add: strip_dot_git_def)
qed

text \<open>
  C2, as stated: normalizing twice is the same as normalizing once. It fails on a string
  with two leading \<open>git+\<close>: each \<open>replace\<close> removes one match only.
\<close>

theorem normalize_repository_not_idempotent:
  "normalize_repository (normalize_repository ''git+git+https://github.com/x/y.git'')
   \<noteq> normalize_repository ''git+git+https://github.com/x/y.git''"
  by (simp add: normalize_repository_def strip_git_plus_def strip_dot_git_def)

text \<open>
  C2, amended: normalizing twice is the same as normalizing once exactly for the strings
  whose normalized form neither starts with \<open>git+\<close> nor ends with \<open>.git\<close>.
\<close>

theorem normalize_repository_twice:
  "normalize_repository (normalize_repository s) = normalize_repository s \<longleftrightarrow>
   \<not> prefix ''git+'' (normalize_repository s) \<and> \<not> suffix ''.git'' (normalize_repository s)"
proof
  assume "\<not> prefix ''git+'' (normalize_repository s) \<and> \<not> suffix ''.git'' (normalize_repository s)"
  then show "normalize_repository (normalize_repository s) = normalize_repository s"
    by (simp add: normalize_repository_def [of "normalize_repository s"]
        strip_git_plus_id strip_dot_git_id)
next
  let ?r = "normalize_repository s"
  assume eq: "normalize_repository ?r = ?r"
  have no_prefix: "\<not> prefix ''git+'' ?r"
  proof
    assume "prefix ''git+'' ?r"
    then have "length (strip_git_plus ?r) < length ?r"
      by (rule strip_git_plus_shorter)
    moreover have "length (normalize_repository ?r) \<le> length (strip_git_plus ?r)"
      by (simp add: normalize_repository_def [of ?r] strip_dot_git_length)
    ultimately show False
      using eq by simp
  qed
  then have "normalize_repository ?r = strip_dot_git ?r"
    by (simp add: normalize_repository_def [of ?r] strip_git_plus_id)
  then have "\<not> suffix ''.git'' ?r"
    using eq strip_dot_git_shorter [of ?r] by auto
  with no_prefix show "\<not> prefix ''git+'' ?r \<and> \<not> suffix ''.git'' ?r"
    by simp
qed

theorem normalize_repository_twice_witness:
  "normalize_repository ''git+https://github.com/x/y.git'' = ''https://github.com/x/y''
   \<and> normalize_repository (normalize_repository ''git+https://github.com/x/y.git'')
     = normalize_repository ''git+https://github.com/x/y.git''"
proof -
  have n: "normalize_repository ''git+https://github.com/x/y.git'' = ''https://github.com/x/y''"
    by (simp add: normalize_repository_def strip_git_plus_def strip_dot_git_def)
  have "\<not> prefix ''git+'' ''https://github.com/x/y'' \<and> \<not> suffix ''.git'' ''https://github.com/x/y''"
    by (simp add: suffix_def prefix_def)
  then show ?thesis
    using n normalize_repository_twice [of "''git+https://github.com/x/y.git''"] by simp
qed

subsection \<open>Dependencies of the latest version\<close>

text \<open>
  C5, as stated: whenever the \<open>latest\<close> dist-tag is absent, or \<open>versions\<close> has no
  entry for it, both dependency mappings are empty. With the tag absent the code looks
  \<open>versions\<close> up at the empty string, and a document may have an entry there.
\<close>

theorem getPackageInfo_latest_absent_counterexample:
  "opt_lookup (pd_dist_tags
      \<lparr> pd_name = ''x'', pd_dist_tags = Some [],
        pd_versions = Some [([], \<lparr> vd_dependencies = Some [(''debug'', ''2.6.9'')],
                                  vd_devDependencies = None \<rparr>)],
        pd_description = None, pd_license = None, pd_homepage = None,
        pd_repository = None, pd_keywords = None \<rparr>) ''latest'' = None
   \<and> fst (getPackageInfo
        (\<lambda>reqs url. Inr \<lparr> ok = True, status = 200, body_text = [], body_json = Inr
           \<lparr> pd_name = ''x'', pd_dist_tags = Some [],
             pd_versions = Some [([], \<lparr> vd_dependencies = Some [(''debug'', ''2.6.9'')],
                                       vd_devDependencies = None \<rparr>)],
             pd_description = None, pd_license = None, pd_homepage = None,
             pd_repository = None, pd_keywords = None \<rparr> \<rparr>)
        ''x'' [])
     = Inr \<lparr> pi_name = ''x'', pi_version = [], pi_description = [], pi_keywords = [],
             pi_license = ''Unknown'', pi_homepage = [], pi_repository = [],
             pi_dependencies = [(''debug'', ''2.6.9'')], pi_devDependencies = [] \<rparr>
   \<and> [(''debug'', ''2.6.9'')] \<noteq> ([] :: dict)"
  by (simp add: opt_lookup_def getPackageInfo_def fetchJson_def fetch_def package_info_def
      latestVersion_def latestData_def repoUrl_def nullish_def normalize_repository_def
      strip_git_plus_def strip_dot_git_def)

text \<open>
  C5, amended: for a document whose \<open>versions\<close> has no entry at \<open>latestVersion\<close> (the
  \<open>latest\<close> dist-tag, or the empty string when that tag or \<open>dist-tags\<close> is absent),
  also when \<open>versions\<close> itself is absent, \<open>getPackageInfo\<close> returns a \<open>PackageInfo\<close>
  with both dependency mappings empty, and no error.
\<close>

theorem getPackageInfo_no_version_entry:
  assumes "srv reqs (package_url name) = Inr resp" and "ok resp" and "body_json resp = Inr data"
    and "opt_lookup (pd_versions data) (latestVersion data) = None"
  shows "\<exists>info. fst (getPackageInfo srv name reqs) = Inr info
           \<and> pi_dependencies info = [] \<and> pi_devDependencies info = []"
proof -
  have "fst (fetchJson srv (package_url name) reqs) = Inr data"
    using assms(1-3) by (simp add: fetchJson_ok)
  then have "fst (getPackageInfo srv name reqs) = Inr (package_info data)"
    by (simp add: getPackageInfo_fst)
  moreover have "latestData data = \<lparr> vd_dependencies = None, vd_devDependencies = None \<rparr>"
    using assms(4) by (simp add: latestData_def nullish_def)
  then have "pi_dependencies (package_info data) = [] \<and> pi_devDependencies (package_info data) = []"
    by (simp add: package_info_def nullish_def)
  ultimately show ?thesis by simp
qed

theorem getPackageInfo_no_version_entry_witness:
  "opt_lookup (pd_versions
      \<lparr> pd_name = ''express'', pd_dist_tags = Some [(''latest'', ''4.18.0'')],
        pd_versions = Some [(''4.17.0'', \<lparr> vd_dependencies = Some [(''debug'', ''2.6.9'')],
                                          vd_devDependencies = None \<rparr>)],
        pd_description = None, pd_license = Some ''MIT'', pd_homepage = None,
        pd_repository = None, pd_keywords = None \<rparr>)
     (latestVersion
      \<lparr> pd_name = ''express'', pd_dist_tags = Some [(''latest'', ''4.18.0'')],
        pd_versions = Some [(''4.17.0'', \<lparr> vd_dependencies = Some [(''debug'', ''2.6.9'')],
                                          vd_devDependencies = None \<rparr>)],
        pd_description = None, pd_license = Some ''MIT'', pd_homepage = None,
        pd_repository = None, pd_keywords = None \<rparr>) = None
   \<and> (\<exists>info. fst (getPackageInfo
        (\<lambda>reqs url. Inr \<lparr> ok = True, status = 200, body_text = [], body_json = Inr
           \<lparr> pd_name = ''express'', pd_dist_tags = Some [(''latest'', ''4.18.0'')],
             pd_versions = Some [(''4.17.0'', \<lparr> vd_dependencies = Some [(''debug'', ''2.6.9'')],
                                               vd_devDependencies = None \<rparr>)],
             pd_description = None, pd_license = Some ''MIT'', pd_homepage = None,
             pd_repository = None, pd_keywords = None \<rparr> \<rparr>)
        ''express'' []) = Inr info
      \<and> pi_dependencies info = [] \<and> pi_devDependencies info = [])"
  (is "?absent \<and> (\<exists>info. fst (getPackageInfo (\<lambda>reqs url. Inr ?resp) ?name ?reqs) = Inr info \<and> _)")
proof -
  have absent: ?absent
    by (simp add: opt_lookup_def latestVersion_def nullish_def)
  have "ok ?resp" and "body_json ?resp = Inr (projr (body_json ?resp))"
    by simp_all
  from getPackageInfo_no_version_entry [of "\<lambda>reqs url. Inr ?resp" ?reqs ?name ?resp, OF refl this]
  show ?thesis
    using absent by simp
qed

subsection \<open>The package spec of a bundle-size request\<close>

text \<open>
  C8, as stated: an input with no \<open>@\<close> version separator is sent with \<open>@latest\<close>
  appended. The name of a scoped package starts with \<open>@\<close>; given without a version it
  has no version separator, and it is sent as it is.
\<close>

theorem getBundleSize_scoped_counterexample:
  "snd (getBundleSize (\<lambda>reqs url. Inl (Error ''offline'')) ''@scope/name'' [])
     = [''https://bundlephobia.com/api/size?package=%40scope%2Fname'']
   \<and> BUNDLEPHOBIA @ ''?package='' @ encodeURIComponent (''@scope/name'' @ ''@latest'')
     = ''https://bundlephobia.com/api/size?package=%40scope%2Fname%40latest''
   \<and> ''https://bundlephobia.com/api/size?package=%40scope%2Fname''
     \<noteq> ''https://bundlephobia.com/api/size?package=%40scope%2Fname%40latest''"
  by (simp add: getBundleSize_requests bundle_url_def pkgSpec_def BUNDLEPHOBIA_def
      encodeURIComponent_def unreserved_def percent_def digit_def)

text \<open>
  C8, amended: \<open>getBundleSize\<close> issues one request, to the bundle-analysis endpoint with
  the encoded package spec; the spec is the input when the input contains the character
  \<open>@\<close> anywhere (as a version separator or as the mark of a scope), and the input
  followed by \<open>@latest\<close> otherwise.
\<close>

theorem getBundleSize_pkgSpec:
  "snd (getBundleSize srv name reqs)
     = reqs @ [BUNDLEPHOBIA @ ''?package=''
                 @ encodeURIComponent (if CHR ''@'' \<in> set name then name else name @ ''@latest'')]"
  by (simp add: getBundleSize_requests bundle_url_def pkgSpec_def)

theorem getBundleSize_pkgSpec_witness:
  "snd (getBundleSize (\<lambda>reqs url. Inl (Error ''offline'')) ''lodash'' [])
       = [''https://bundlephobia.com/api/size?package=lodash%40latest'']
   \<and> snd (getBundleSize (\<lambda>reqs url. Inl (Error ''offline'')) ''lodash@4.17.21'' [])
       = [''https://bundlephobia.com/api/size?package=lodash%404.17.21'']
   \<and> snd (getBundleSize (\<lambda>reqs url. Inl (Error ''offline'')) ''@scope/name@1.0.0'' [])
       = [''https://bundlephobia.com/api/size?package=%40scope%2Fname%401.0.0'']"
proof -
  have e1: "encodeURIComponent ''lodash@latest'' = ''lodash%40latest''"
    by (simp add: encodeURIComponent_def unreserved_def percent_def digit_def)
  have e2: "encodeURIComponent ''lodash@4.17.21'' = ''lodash%404.17.21''"
    by (simp add: encodeURIComponent_def unreserved_def percent_def digit_def)
  have e3: "encodeURIComponent ''@scope/name@1.0.0'' = ''%40scope%2Fname%401.0.0''"
    by (simp add: encodeURIComponent_def unreserved_def percent_def digit_def)
  from getBundleSize_pkgSpec [of "\<lambda>reqs url. Inl (Error ''offline'')" "''lodash''" "[]"]
    getBundleSize_pkgSpec [of "\<lambda>reqs url. Inl (Error ''offline'')" "''lodash@4.17.21''" "[]"]
    getBundleSize_pkgSpec [of "\<lambda>reqs url. Inl (Error ''offline'')" "''@scope/name@1.0.0''" "[]"]
  show ?thesis
    using e1 e2 e3 by (simp add: BUNDLEPHOBIA_def)
qed

subsection \<open>Upstream errors\<close>

text \<open>
  C9. When the response to its request has \<open>ok = false\<close>, \<open>fetchJson\<close> and every
  operation built on it fails with an error whose message contains the decimal status
  code and the text of the response body; \<open>getVulnerabilities\<close> wraps the message and
  keeps both.
\<close>

theorem upstream_error_message:
  fixes rf :: "'j response" and rs :: "search_data response"
    and rp :: "package_document response" and rd :: "point_data response"
    and rb :: "bundle_data response" and rt :: "range_data response"
  shows
   "(srvf reqs url = Inr rf \<and> \<not> ok rf \<longrightarrow>
       (\<exists>e. fst (fetchJson srvf url reqs) = Inl e
          \<and> sublist (show_nat (status rf)) (message e) \<and> sublist (body_text rf) (message e)))
  \<and> (srvs reqs (search_url query (nullish sz 10)) = Inr rs \<and> \<not> ok rs \<longrightarrow>
       (\<exists>e. fst (searchPackages srvs query sz reqs) = Inl e
          \<and> sublist (show_nat (status rs)) (message e) \<and> sublist (body_text rs) (message e)))
  \<and> (srvp reqs (package_url name) = Inr rp \<and> \<not> ok rp \<longrightarrow>
       (\<exists>e. fst (getPackageInfo srvp name reqs) = Inl e
          \<and> sublist (show_nat (status rp)) (message e) \<and> sublist (body_text rp) (message e))
     \<and> (\<exists>e. fst (getVulnerabilities srvp name reqs) = Inl e
          \<and> sublist (show_nat (status rp)) (message e) \<and> sublist (body_text rp) (message e))
     \<and> (\<exists>e. fst (getDependencyTree srvp name reqs) = Inl e
          \<and> sublist (show_nat (status rp)) (message e) \<and> sublist (body_text rp) (message e)))
  \<and> (srvd reqs (point_url (nullish period ''last-month'') name) = Inr rd \<and> \<not> ok rd \<longrightarrow>
       (\<exists>e. fst (getDownloads srvd name period reqs) = Inl e
          \<and> sublist (show_nat (status rd)) (message e) \<and> sublist (body_text rd) (message e)))
  \<and> (srvb reqs (bundle_url name) = Inr rb \<and> \<not> ok rb \<longrightarrow>
       (\<exists>e. fst (getBundleSize srvb name reqs) = Inl e
          \<and> sublist (show_nat (status rb)) (message e) \<and> sublist (body_text rb) (message e)))
  \<and> (srvt reqs (range_url (nullish period ''last-month'') name) = Inr rt \<and> \<not> ok rt \<longrightarrow>
       (\<exists>e. fst (getDownloadTrends loc srvt name period reqs) = Inl e
          \<and> sublist (show_nat (status rt)) (message e) \<and> sublist (body_text rt) (message e)))"
proof -
  have c: "sublist (show_nat st) (message (api_error st body))
      \<and> sublist body (message (api_error st body))
      \<and> sublist (show_nat st) (message (vulnerability_error (api_error st body)))
      \<and> sublist body (message (vulnerability_error (api_error st body)))" for st body
    using api_error_contains [of st body] by (simp add: vulnerability_error_contains)
  show ?thesis
    by (simp add: fetchJson_not_ok searchPackages_fst getPackageInfo_fst getDownloads_fst
        getBundleSize_fst getDownloadTrends_fst getVulnerabilities_fst getDependencyTree_fst c)
qed

theorem upstream_error_message_witness:
  "fst (searchPackages
     (\<lambda>reqs url. Inr \<lparr> ok = False, status = 404, body_text = ''Not found'',
                         body_json = Inl (Error ''Unexpected token'') \<rparr>)
     ''nonexistent'' None [])
   = Inl (Error ''API error (404): Not found'')
   \<and> sublist ''404'' ''API error (404): Not found''
   \<and> sublist ''Not found'' ''API error (404): Not found''"
  (is "fst (searchPackages (\<lambda>reqs url. Inr ?resp) ?q ?sz ?reqs) = Inl ?err \<and> _")
proof -
  have n: "show_nat 404 = ''404''"
    by (simp add: show_nat.simps digit_def)
  have run: "fst (searchPackages (\<lambda>reqs url. Inr ?resp) ?q ?sz ?reqs) = Inl ?err"
    by (simp add: searchPackages_fst fetchJson_def fetch_def api_error_def n)
  have "\<exists>e. fst (searchPackages (\<lambda>reqs url. Inr ?resp) ?q ?sz ?reqs) = Inl e
          \<and> sublist (show_nat (status ?resp)) (message e) \<and> sublist (body_text ?resp) (message e)"
    using upstream_error_message [where srvs = "\<lambda>reqs url. Inr ?resp"
        and rs = ?resp and query = ?q and sz = ?sz and reqs = ?reqs, THEN conjunct2, THEN conjunct1]
    by simp
  then show ?thesis
    using run n by simp
qed

subsection \<open>Rounding to a double\<close>

lemma round_even_bounds:
  "of_int (round_even z) \<le> z + 1 / 2 \<and> z - 1 / 2 \<le> of_int (round_even z)"
  by (auto simp: round_even_def Let_def; linarith)

lemma round_even_of_int: "round_even (of_int n) = n"
  by (simp add: round_even_def)

lemma round_even_le_int: "z \<le> of_int n \<Longrightarrow> round_even z \<le> n"
proof -
  assume le: "z \<le> of_int n"
  then have f: "\<lfloor>z\<rfloor> \<le> n" by (simp add: floor_le_iff)
  show ?thesis
  proof (cases "\<lfloor>z\<rfloor> = n")
    case True
    then have "z = of_int n" using le by linarith
    then show ?thesis by (simp add: round_even_of_int)
  next
    case False
    with f have "\<lfloor>z\<rfloor> + 1 \<le> n" by simp
    moreover have "round_even z \<le> \<lfloor>z\<rfloor> + 1"
      by (simp add: round_even_def Let_def)
    ultimately show ?thesis by simp
  qed
qed

lemma round_even_ge_int: "of_int n \<le> z \<Longrightarrow> n \<le> round_even z"
proof -
  assume "of_int n \<le> z"
  then have "n \<le> \<lfloor>z\<rfloor>" by (simp add: le_floor_iff)
  moreover have "\<lfloor>z\<rfloor> \<le> round_even z"
    by (simp add: round_even_def Let_def)
  ultimately show ?thesis by simp
qed

lemma exponent_bounds:
  assumes "x \<noteq> 0"
  shows "2 powi exponent x \<le> \<bar>x\<bar>" and "\<bar>x\<bar> < 2 powi (exponent x + 1)"
proof -
  obtain p q where pq: "quotient_of \<bar>x\<bar> = (p, q)" by (cases "quotient_of \<bar>x\<bar>")
  then have q: "0 < q" and x: "\<bar>x\<bar> = of_int p / of_int q"
    by (simp_all add: quotient_of_denom_pos quotient_of_div)
  have "0 < \<bar>x\<bar>" using assms by simp
  with x q have p: "0 < p" by (simp add: zero_less_divide_iff)
  let ?bp = "bitlen p" and ?bq = "bitlen q"
  from bitlen_bounds [OF p] have p1: "2 ^ nat (?bp - 1) \<le> p" and p2: "p < 2 ^ nat ?bp" by simp_all
  from bitlen_bounds [OF q] have q1: "2 ^ nat (?bq - 1) \<le> q" and q2: "q < 2 ^ nat ?bq" by simp_all
  have bp: "1 \<le> ?bp" and bq: "1 \<le> ?bq"
    using p q bitlen_eq_zero_iff [of p] bitlen_eq_zero_iff [of q] bitlen_nonneg [of p] bitlen_nonneg [of q]
    by linarith+
  have P1: "(2::rat) powi (?bp - 1) \<le> of_int p"
  proof -
    have "(2::rat) powi (?bp - 1) = 2 ^ nat (?bp - 1)"
      using bp by (simp add: power_int_def)
    also have "\<dots> = of_int (2 ^ nat (?bp - 1))" by simp
    also have "\<dots> \<le> of_int p" using p1 by (simp only: of_int_le_iff)
    finally show ?thesis .
  qed
  have P2: "of_int p < (2::rat) powi ?bp"
  proof -
    have "of_int p < (of_int (2 ^ nat ?bp) :: rat)" using p2 by (simp only: of_int_less_iff)
    also have "\<dots> = 2 powi ?bp" using bp by (simp add: power_int_def)
    finally show ?thesis .
  qed
  have Q1: "(2::rat) powi (?bq - 1) \<le> of_int q"
  proof -
    have "(2::rat) powi (?bq - 1) = 2 ^ nat (?bq - 1)"
      using bq by (simp add: power_int_def)
    also have "\<dots> = of_int (2 ^ nat (?bq - 1))" by simp
    also have "\<dots> \<le> of_int q" using q1 by (simp only: of_int_le_iff)
    finally show ?thesis .
  qed
  have Q2: "of_int q < (2::rat) powi ?bq"
  proof -
    have "of_int q < (of_int (2 ^ nat ?bq) :: rat)" using q2 by (simp only: of_int_less_iff)
    also have "\<dots> = 2 powi ?bq" using bq by (simp add: power_int_def)
    finally show ?thesis .
  qed
  have qpos: "(0::rat) < of_int q" using q by simp
  have low: "(2::rat) powi (?bp - ?bq - 1) \<le> \<bar>x\<bar>"
  proof -
    have "(2::rat) powi (?bp - ?bq - 1) * of_int q \<le> 2 powi (?bp - ?bq - 1) * 2 powi ?bq"
      using Q2 by (intro mult_left_mono) simp_all
    also have "\<dots> = 2 powi (?bp - 1)"
      by (simp flip: power_int_add)
    also have "\<dots> \<le> of_int p" by (rule P1)
    finally show ?thesis
      using qpos by (simp add: x pos_le_divide_eq)
  qed
  have high: "\<bar>x\<bar> < (2::rat) powi (?bp - ?bq + 1)"
  proof -
    have "of_int p < (2::rat) powi ?bp" by (rule P2)
    also have "\<dots> = 2 powi (?bp - ?bq + 1) * 2 powi (?bq - 1)"
      by (simp flip: power_int_add)
    also have "\<dots> \<le> 2 powi (?bp - ?bq + 1) * of_int q"
      using Q1 by (intro mult_left_mono) simp_all
    finally show ?thesis
      using qpos by (simp add: x pos_divide_less_eq)
  qed
  have e: "exponent x = (if 2 powi (?bp - ?bq) \<le> \<bar>x\<bar> then ?bp - ?bq else ?bp - ?bq - 1)"
    by (simp add: exponent_def pq Let_def)
  show "2 powi exponent x \<le> \<bar>x\<bar>"
    using low by (simp add: e)
  show "\<bar>x\<bar> < 2 powi (exponent x + 1)"
    using high by (auto simp: e not_le)
qed

lemma ulp_pos: "0 < ulp x"
  by (simp add: ulp_def)

lemma exponent_le:
  assumes "x \<noteq> 0" and "\<bar>x\<bar> < 2 powi k"
  shows "exponent x < k"
proof (rule ccontr)
  assume "\<not> exponent x < k"
  then have "k \<le> exponent x" by simp
  then have "(2::rat) powi k \<le> 2 powi exponent x"
    by (intro power_int_increasing) simp_all
  also have "\<dots> \<le> \<bar>x\<bar>" by (rule exponent_bounds(1) [OF assms(1)])
  finally show False using assms(2) by simp
qed

lemma exponent_ge:
  assumes "x \<noteq> 0" and "2 powi k \<le> \<bar>x\<bar>"
  shows "k \<le> exponent x"
proof (rule ccontr)
  assume "\<not> k \<le> exponent x"
  then have "exponent x + 1 \<le> k" by simp
  then have "(2::rat) powi (exponent x + 1) \<le> 2 powi k"
    by (intro power_int_increasing) simp_all
  with exponent_bounds(2) [OF assms(1)] assms(2) show False by simp
qed

lemma fl_sandwich:
  assumes "x \<noteq> 0" and "lo \<le> x" and "x \<le> hi"
    and "lo / ulp x = of_int i" and "hi / ulp x = of_int j"
    and "- max_double \<le> lo" and "hi \<le> max_double"
  shows "\<exists>r. fl x = Finite r \<and> lo \<le> r \<and> r \<le> hi \<and> r = of_int (round_even (x / ulp x)) * ulp x"
proof -
  let ?u = "ulp x"
  let ?r = "of_int (round_even (x / ?u)) * ?u"
  have u: "0 < ?u" by (rule ulp_pos)
  have "x / ?u \<le> of_int j"
    using assms(3,5) u by (simp add: divide_right_mono flip: assms(5))
  then have "round_even (x / ?u) \<le> j" by (rule round_even_le_int)
  then have "(of_int (round_even (x / ?u)) :: rat) \<le> of_int j" by simp
  then have "?r \<le> of_int j * ?u" using u by (simp add: mult_right_mono)
  also have "of_int j * ?u = hi" using u by (simp flip: assms(5))
  finally have hi: "?r \<le> hi" .
  have "of_int i \<le> x / ?u"
    using assms(2,4) u by (simp add: divide_right_mono flip: assms(4))
  then have "i \<le> round_even (x / ?u)" by (rule round_even_ge_int)
  then have "(of_int i :: rat) \<le> of_int (round_even (x / ?u))" by simp
  then have "of_int i * ?u \<le> ?r" using u by (simp add: mult_right_mono)
  moreover have "of_int i * ?u = lo" using u by (simp flip: assms(4))
  ultimately have lo: "lo \<le> ?r" by simp
  have "fl x = Finite ?r"
    using assms(1,6,7) lo hi by (simp add: fl_def Let_def)
  with lo hi show ?thesis by blast
qed

lemma dyadic_over_ulp:
  assumes "x \<noteq> 0" and "\<bar>x\<bar> < 2 powi (53 - int s)" and "s \<le> 1074"
  shows "\<exists>n. (of_int c / 2 ^ s) / ulp x = of_int n"
proof -
  from exponent_le [OF assms(1,2)] have e: "exponent x - 52 \<le> - int s" by simp
  let ?m = "max (exponent x - 52) (- 1074)"
  have m: "?m \<le> - int s" using e assms(3) by simp
  have "(of_int c / 2 ^ s) / ulp x = of_int c * (2 powi (- int s) / 2 powi ?m)"
    by (simp add: ulp_def power_int_minus field_simps)
  also have "2 powi (- int s) / (2::rat) powi ?m = 2 powi (- int s - ?m)"
    by (simp add: power_int_diff)
  also have "\<dots> = 2 ^ nat (- int s - ?m)"
    using m by (simp add: power_int_def)
  also have "of_int c * (2::rat) ^ nat (- int s - ?m) = of_int (c * 2 ^ nat (- int s - ?m))"
    by simp
  finally show ?thesis by blast
qed

lemma max_double_large: "2 ^ 53 \<le> max_double"
proof -
  have "(2::rat) ^ 53 = 2 ^ 52 * 2 ^ 1" by simp
  also have "\<dots> \<le> (2 ^ 53 - 1) * 2 ^ 971"
    by (intro mult_mono power_increasing) simp_all
  finally show ?thesis by (simp add: max_double_def)
qed

lemma fl_int:
  assumes "\<bar>k\<bar> < 2 ^ 53"
  shows "fl (of_int k) = Finite (of_int k)"
proof (cases "k = 0")
  case True
  then show ?thesis by (simp add: fl_def)
next
  case False
  let ?x = "of_int k :: rat"
  have x: "?x \<noteq> 0" using False by simp
  have "\<bar>?x\<bar> = of_int \<bar>k\<bar>" by simp
  also have "\<dots> < of_int (2 ^ 53)" using assms by (simp only: of_int_less_iff)
  finally have small: "\<bar>?x\<bar> < 2 ^ 53" by simp
  then have "\<bar>?x\<bar> < 2 powi (53 - int 0)" by simp
  from dyadic_over_ulp [OF x this, of k] obtain n where n: "?x / ulp ?x = of_int n"
    by auto
  have "- max_double \<le> ?x" and "?x \<le> max_double"
    using small max_double_large by linarith+
  from fl_sandwich [OF x order_refl order_refl n n this] show ?thesis
    by auto
qed

lemma num_exact: "\<bar>k\<bar> < 2 ^ 53 \<Longrightarrow> num k = Finite (of_int k)"
  by (simp add: num_def fl_int)

lemma foldl_num_add:
  assumes "\<forall>d \<in> set daily. 0 \<le> dp_downloads d" and "0 \<le> a"
    and "a + sum_list (map dp_downloads daily) < 2 ^ 53"
  shows "foldl (\<lambda>sum d. num_add sum (num (dp_downloads d))) (Finite (of_int a)) daily
    = Finite (of_int (a + sum_list (map dp_downloads daily)))"
  using assms
proof (induction daily arbitrary: a)
  case Nil
  then show ?case by simp
next
  case (Cons d ds)
  have nonneg: "0 \<le> dp_downloads d" "0 \<le> sum_list (map dp_downloads ds)"
    using Cons.prems(1) by (auto intro!: sum_list_nonneg)
  have small: "\<bar>dp_downloads d\<bar> < 2 ^ 53" "\<bar>a + dp_downloads d\<bar> < 2 ^ 53"
    using nonneg Cons.prems(2,3) by auto
  have "num_add (Finite (of_int a)) (num (dp_downloads d)) = fl (of_int (a + dp_downloads d))"
    using small(1) by (simp add: num_exact)
  also have "\<dots> = Finite (of_int (a + dp_downloads d))"
    using small(2) by (rule fl_int)
  finally have step: "num_add (Finite (of_int a)) (num (dp_downloads d))
      = Finite (of_int (a + dp_downloads d))" .
  have "foldl (\<lambda>sum d. num_add sum (num (dp_downloads d))) (Finite (of_int (a + dp_downloads d))) ds
      = Finite (of_int ((a + dp_downloads d) + sum_list (map dp_downloads ds)))"
    using Cons.prems nonneg by (intro Cons.IH) (auto simp: add.assoc)
  then show ?case
    by (simp add: step add.assoc)
qed

lemma total_of_exact:
  assumes "\<forall>d \<in> set daily. 0 \<le> dp_downloads d"
    and "sum_list (map dp_downloads daily) < 2 ^ 53"
  shows "total_of daily = Finite (of_int (sum_list (map dp_downloads daily)))"
  using foldl_num_add [OF assms(1), of 0] assms(2) by (simp add: total_of_def)

lemma foldl_max2:
  "foldl max2 (Finite (of_int a)) (map (\<lambda>k. Finite (of_int k)) ks) = Finite (of_int (foldl max a ks))"
proof (induction ks arbitrary: a)
  case Nil
  show ?case by simp
next
  case (Cons k ks)
  have "max2 (Finite (of_int a)) (Finite (of_int k)) = Finite (of_int (max a k))"
    by (simp add: max2_def max_def)
  then show ?case using Cons.IH by simp
qed

lemma foldl_min2:
  "foldl min2 (Finite (of_int a)) (map (\<lambda>k. Finite (of_int k)) ks) = Finite (of_int (foldl min a ks))"
proof (induction ks arbitrary: a)
  case Nil
  show ?case by simp
next
  case (Cons k ks)
  have "min2 (Finite (of_int a)) (Finite (of_int k)) = Finite (of_int (min a k))"
    by (simp add: min2_def min_def)
  then show ?case using Cons.IH by simp
qed

lemma foldl_max_Max: "foldl max a ks = Max (set (a # ks))"
  for a :: int
proof (induction ks arbitrary: a)
  case Nil
  show ?case by simp
next
  case (Cons k ks)
  have "Max (set (a # k # ks)) = Max (insert (max a k) (set ks))"
  proof (cases "ks = []")
    case True
    then show ?thesis by (simp add: max.commute)
  next
    case False
    then show ?thesis by (simp add: max.assoc)
  qed
  then show ?case using Cons.IH [of "max a k"] by simp
qed

lemma foldl_min_Min: "foldl min a ks = Min (set (a # ks))"
  for a :: int
proof (induction ks arbitrary: a)
  case Nil
  show ?case by simp
next
  case (Cons k ks)
  have "Min (set (a # k # ks)) = Min (insert (min a k) (set ks))"
  proof (cases "ks = []")
    case True
    then show ?thesis by (simp add: min.commute)
  next
    case False
    then show ?thesis by (simp add: min.assoc)
  qed
  then show ?case using Cons.IH [of "min a k"] by simp
qed

lemma nums_exact:
  assumes "\<forall>d \<in> set daily. \<bar>dp_downloads d\<bar> < 2 ^ 53"
  shows "map (\<lambda>d. num (dp_downloads d)) daily = map (\<lambda>k. Finite (of_int k)) (map dp_downloads daily)"
  using assms by (induction daily) (simp_all add: num_exact)

lemma max_of_exact:
  assumes "daily \<noteq> []" and "\<forall>d \<in> set daily. \<bar>dp_downloads d\<bar> < 2 ^ 53"
  shows "max_of daily = Finite (of_int (Max (set (map dp_downloads daily))))"
proof -
  from assms(1) obtain d ds where daily: "daily = d # ds" by (cases daily) auto
  have "Math_max (map (\<lambda>k. Finite (of_int k)) (map dp_downloads daily))
      = foldl max2 (Finite (of_int (dp_downloads d))) (map (\<lambda>k. Finite (of_int k)) (map dp_downloads ds))"
    by (simp add: Math_max_def daily max2_def)
  also have "\<dots> = Finite (of_int (Max (set (map dp_downloads daily))))"
    by (simp only: foldl_max2 foldl_max_Max daily list.map)
  finally show ?thesis
    using assms by (simp add: max_of_def nums_exact)
qed

lemma min_of_exact:
  assumes "daily \<noteq> []" and "\<forall>d \<in> set daily. \<bar>dp_downloads d\<bar> < 2 ^ 53"
  shows "min_of daily = Finite (of_int (Min (set (map dp_downloads daily))))"
proof -
  from assms(1) obtain d ds where daily: "daily = d # ds" by (cases daily) auto
  have "Math_min (map (\<lambda>k. Finite (of_int k)) (map dp_downloads daily))
      = foldl min2 (Finite (of_int (dp_downloads d))) (map (\<lambda>k. Finite (of_int k)) (map dp_downloads ds))"
    by (simp add: Math_min_def daily min2_def)
  also have "\<dots> = Finite (of_int (Min (set (map dp_downloads daily))))"
    by (simp only: foldl_min2 foldl_min_Min daily list.map)
  finally show ?thesis
    using assms by (simp add: min_of_def nums_exact)
qed

lemma ulp_small:
  assumes "0 < x" and "x < 1 / 4 \<or> x * c < 2 ^ 52" and "1 \<le> c"
  shows "ulp x / 2 < 1 / (2 * c) \<or> (x < 1 / 4 \<and> ulp x \<le> 1 / 4)"
proof (cases "- 1074 \<le> exponent x - 52")
  case True
  then have "ulp x = 2 powi (exponent x - 52)" by (simp only: ulp_def max_absorb1)
  also have "\<dots> = 2 powi exponent x / 2 ^ 52"
    by (simp add: power_int_diff)
  also have "\<dots> \<le> x / 2 ^ 52"
    using exponent_bounds(1) [of x] assms(1) by (simp add: divide_right_mono)
  finally have u: "ulp x \<le> x / 2 ^ 52" .
  show ?thesis
  proof (cases "x * c < 2 ^ 52")
    case True
    have "ulp x * c \<le> x / 2 ^ 52 * c"
      using u assms(3) by (intro mult_right_mono) simp_all
    also have "\<dots> = (x * c) / 2 ^ 52" by simp
    also have "\<dots> < 1" using True by simp
    finally have "ulp x * c < 1" .
    then have "ulp x < 1 / c" using assms(3) by (simp add: pos_less_divide_eq)
    then show ?thesis by (simp add: field_simps)
  next
    case False
    with assms(2) have x: "x < 1 / 4" by simp
    have "x / 2 ^ 52 \<le> x" using assms(1) by simp
    with u have "ulp x \<le> x" by simp
    with x show ?thesis by simp
  qed
next
  case False
  then have "exponent x - 52 \<le> - 1074" by simp
  then have "ulp x = 2 powi (- 1074)" by (simp only: ulp_def max_absorb2)
  also have "\<dots> \<le> (2::rat) powi (- 2)"
    by (intro power_int_increasing) simp_all
  finally have u: "ulp x \<le> 1 / 4" by (simp add: power_int_minus)
  from False have "exponent x + 1 \<le> - 1022" by simp
  then have "(2::rat) powi (exponent x + 1) \<le> 2 powi (- 1022)"
    by (intro power_int_increasing) simp_all
  also have "\<dots> \<le> (2::rat) powi (- 3)"
    by (intro power_int_increasing) simp_all
  finally have "x < 2 powi (- 3)"
    using exponent_bounds(2) [of x] assms(1) by simp
  then have "x < 1 / 4" by (simp add: power_int_minus)
  with u show ?thesis by simp
qed

lemma fl_quotient_half_up:
  assumes "0 < t" and "t < 2 ^ 52" and "0 < n"
  shows "\<exists>r. fl (of_int t / of_nat n) = Finite r
    \<and> \<lfloor>r + 1 / 2\<rfloor> = \<lfloor>(of_int t / of_nat n :: rat) + 1 / 2\<rfloor>"
proof -
  define q :: rat where "q = of_int t / of_nat n"
  define a where "a = \<lfloor>q + 1 / 2\<rfloor>"
  define lo :: rat where "lo = of_int (2 * a - 1) / 2 ^ 1"
  define hi :: rat where "hi = of_int (2 * a + 1) / 2 ^ 1"
  have lo_eq: "lo = of_int a - 1 / 2" by (simp add: lo_def diff_divide_distrib)
  have hi_eq: "hi = of_int a + 1 / 2" by (simp add: hi_def add_divide_distrib)
  have a1: "of_int a \<le> q + 1 / 2" and a2: "q + 1 / 2 < of_int a + 1"
    unfolding a_def by linarith+
  have n: "(1::rat) \<le> of_nat n" using assms(3) by simp
  have q: "0 < q" using assms(1,3) by (simp add: q_def)
  have qn: "q * of_nat n = of_int t" using assms(3) by (simp add: q_def)
  have "(of_int t :: rat) < of_int (2 ^ 52)" using assms(2) by (simp only: of_int_less_iff)
  then have t52: "(of_int t :: rat) < 2 ^ 52" by simp
  have "q \<le> of_int t"
    using n assms(1) by (simp add: q_def divide_le_eq)
  with t52 have q52: "q < 2 ^ 52" by simp
  have lo: "lo \<le> q" and hi: "q < hi"
    using a1 a2 by (simp_all add: lo_eq hi_eq)
  have x: "q \<noteq> 0" using q by simp
  have small: "\<bar>q\<bar> < 2 powi (53 - int 1)" using q q52 by simp
  have s: "(1::nat) \<le> 1074" by simp
  from dyadic_over_ulp [OF x small s, of "2 * a - 1"] obtain i
    where i: "lo / ulp q = of_int i" unfolding lo_def by blast
  from dyadic_over_ulp [OF x small s, of "2 * a + 1"] obtain j
    where j: "hi / ulp q = of_int j" unfolding hi_def by blast
  have a0: "0 \<le> a" using q by (simp add: a_def le_floor_iff)
  then have "(0::rat) \<le> of_int a" by simp
  then have lo_max: "- max_double \<le> lo"
    using max_double_large by (simp add: lo_eq)
  have hi_max: "hi \<le> max_double"
    using a1 q52 max_double_large by (simp add: hi_eq)
  from fl_sandwich [OF x lo order_less_imp_le [OF hi] i j lo_max hi_max] obtain r
    where r: "fl q = Finite r" and rlo: "lo \<le> r" and rhi: "r \<le> hi"
      and rdef: "r = of_int (round_even (q / ulp q)) * ulp q"
    by blast
  have gap: "1 / (2 * of_nat n) \<le> hi - q"
  proof -
    have "q * of_nat n < hi * of_nat n"
      using hi assms(3) by simp
    then have "of_int t * 2 < (of_int (2 * a + 1) * of_nat n :: rat)"
      by (simp add: qn hi_def field_simps)
    then have "(of_int (t * 2) :: rat) < of_int ((2 * a + 1) * int n)"
      by simp
    then have "t * 2 < (2 * a + 1) * int n" by (simp only: of_int_less_iff)
    then have "t * 2 + 1 \<le> (2 * a + 1) * int n" by simp
    then have "(of_int (t * 2 + 1) :: rat) \<le> of_int ((2 * a + 1) * int n)"
      by (simp only: of_int_le_iff)
    then have "q * of_nat n * 2 + 1 \<le> hi * 2 * of_nat n"
      by (simp add: qn hi_def algebra_simps)
    then have "1 \<le> (hi - q) * (2 * of_nat n)"
      by (simp add: algebra_simps)
    then show ?thesis
      using assms(3) by (simp add: pos_divide_le_eq)
  qed
  have strict: "r < hi"
  proof (rule ccontr)
    assume "\<not> r < hi"
    with rhi have eq: "r = hi" by simp
    have u: "0 < ulp q" by (rule ulp_pos)
    have "of_int (round_even (q / ulp q)) \<le> q / ulp q + 1 / 2"
      using round_even_bounds by blast
    then have "of_int (round_even (q / ulp q)) * ulp q \<le> (q / ulp q + 1 / 2) * ulp q"
      using u by (intro mult_right_mono) simp_all
    also have "\<dots> = q + ulp q / 2"
      using u by (simp add: field_simps)
    finally have close: "hi - q \<le> ulp q / 2"
      using eq rdef by simp
    have "q < 1 / 4 \<or> q * of_nat n < 2 ^ 52"
      using qn t52 by simp
    from ulp_small [OF q this n] show False
    proof
      assume "ulp q / 2 < 1 / (2 * of_nat n)"
      with gap close show False by simp
    next
      assume small: "q < 1 / 4 \<and> ulp q \<le> 1 / 4"
      with a1 a2 q have "a = 0" by linarith
      then have "hi = 1 / 2" by (simp add: hi_eq)
      with small close show False by simp
    qed
  qed
  have "\<lfloor>r + 1 / 2\<rfloor> = a"
  proof (rule floor_unique)
    show "of_int a \<le> r + 1 / 2" using rlo by (simp add: lo_eq)
    show "r + 1 / 2 < of_int a + 1" using strict by (simp add: hi_eq)
  qed
  with r show ?thesis by (simp add: q_def a_def)
qed

lemma avg_of_half_up:
  assumes "0 \<le> t" and "t < 2 ^ 52" and "0 < n"
  shows "Math_round (num_div (Finite (of_int t)) (Finite (of_nat n)))
    = Finite (of_int \<lfloor>(of_int t / of_nat n :: rat) + 1 / 2\<rfloor>)"
proof (cases "t = 0")
  case True
  then show ?thesis using assms(3) by (simp add: fl_def Math_round_def)
next
  case False
  with assms(1) have "0 < t" by simp
  from fl_quotient_half_up [OF this assms(2,3)] obtain r
    where "fl (of_int t / of_nat n) = Finite r"
      and "\<lfloor>r + 1 / 2\<rfloor> = \<lfloor>(of_int t / of_nat n :: rat) + 1 / 2\<rfloor>"
    by blast
  then show ?thesis using assms(3) by (simp add: Math_round_def)
qed

lemma exponent_eq:
  assumes "x \<noteq> 0" and "2 powi e \<le> \<bar>x\<bar>" and "\<bar>x\<bar> < 2 powi (e + 1)"
  shows "exponent x = e"
  using exponent_ge [OF assms(1,2)] exponent_le [OF assms(1,3)] by simp

lemma fl_at:
  assumes "x \<noteq> 0" and "2 powi e \<le> \<bar>x\<bar>" and "\<bar>x\<bar> < 2 powi (e + 1)"
    and "- 1074 \<le> e - 52"
    and "r = of_int (round_even (x / 2 powi (e - 52))) * 2 powi (e - 52)"
    and "\<bar>r\<bar> \<le> 2 ^ 53"
  shows "fl x = Finite r"
proof -
  have "ulp x = 2 powi (e - 52)"
    using assms(4) by (simp only: ulp_def exponent_eq [OF assms(1-3)] max_absorb1)
  moreover have "\<not> max_double < r" and "\<not> r < - max_double"
    using assms(6) max_double_large by linarith+
  ultimately show ?thesis
    using assms(1,5) by (simp add: fl_def Let_def)
qed

lemma round_even_eval:
  "\<lfloor>x\<rfloor> = f \<Longrightarrow>
   round_even x = (if x - of_int f < 1 / 2 then f else if 1 / 2 < x - of_int f then f + 1
                   else if even f then f else f + 1)"
  by (auto simp: round_even_def Let_def)

text \<open>
  Rounding at a known exponent with the floor of the scaled value given, the two roundings of
  \<open>k / 7 * 7\<close>, and the bounds of a rounded value: it stays between two integers below
  \<open>2^53\<close>, and within a relative error of \<open>2^-53\<close> in the normal range.
\<close>

lemma fl_at':
  assumes "\<lfloor>z\<rfloor> = f"
    and "M = (if z - of_int f < 1 / 2 then f else if 1 / 2 < z - of_int f then f + 1
              else if even f then f else f + 1)"
    and "x \<noteq> 0" and "2 powi e \<le> \<bar>x\<bar>" and "\<bar>x\<bar> < 2 powi (e + 1)"
    and "- 1074 \<le> e - 52"
    and "x / 2 powi (e - 52) = z"
    and "r = of_int M * 2 powi (e - 52)" and "\<bar>r\<bar> \<le> 2 ^ 53"
  shows "fl x = Finite r"
proof -
  have "round_even z = M"
    using assms(1,2) by (simp add: round_even_eval)
  then have "r = of_int (round_even (x / 2 powi (e - 52))) * 2 powi (e - 52)"
    using assms(7,8) by simp
  from fl_at [OF assms(3-6) this assms(9)] show ?thesis .
qed

lemma tie_levels:
  assumes "1 \<le> k" and "k \<le> 6"
  shows "\<exists>c. fl (of_int k / 7) = Finite c \<and> fl (c * 7) = Finite (of_int k)"
proof -
  have a1: "fl (1 / 7) = Finite (2573485501354569 / 18014398509481984)"
    by (rule fl_at' [where e = "-3" and z = "36028797018963968 / 7" and f = "5146971002709138" and M = "5146971002709138"])
      (simp_all add: power_int_minus floor_eq_iff)
  have b1: "fl (2573485501354569 / 18014398509481984 * 7) = Finite (1)"
    by (rule fl_at' [where e = "-1" and z = "18014398509481983 / 2" and f = "9007199254740991" and M = "9007199254740992"])
      (simp_all add: power_int_minus floor_eq_iff)
  have a2: "fl (2 / 7) = Finite (2573485501354569 / 9007199254740992)"
    by (rule fl_at' [where e = "-2" and z = "36028797018963968 / 7" and f = "5146971002709138" and M = "5146971002709138"])
      (simp_all add: power_int_minus floor_eq_iff)
  have b2: "fl (2573485501354569 / 9007199254740992 * 7) = Finite (2)"
    by (rule fl_at' [where e = "0" and z = "18014398509481983 / 2" and f = "9007199254740991" and M = "9007199254740992"])
      (simp_all add: power_int_minus floor_eq_iff)
  have a3: "fl (3 / 7) = Finite (7720456504063707 / 18014398509481984)"
    by (rule fl_at' [where e = "-2" and z = "54043195528445952 / 7" and f = "7720456504063707" and M = "7720456504063707"])
      (simp_all add: power_int_minus floor_eq_iff)
  have b3: "fl (7720456504063707 / 18014398509481984 * 7) = Finite (3)"
    by (rule fl_at' [where e = "1" and z = "54043195528445949 / 8" and f = "6755399441055743" and M = "6755399441055744"])
      (simp_all add: power_int_minus floor_eq_iff)
  have a4: "fl (4 / 7) = Finite (2573485501354569 / 4503599627370496)"
    by (rule fl_at' [where e = "-1" and z = "36028797018963968 / 7" and f = "5146971002709138" and M = "5146971002709138"])
      (simp_all add: power_int_minus floor_eq_iff)
  have b4: "fl (2573485501354569 / 4503599627370496 * 7) = Finite (4)"
    by (rule fl_at' [where e = "1" and z = "18014398509481983 / 2" and f = "9007199254740991" and M = "9007199254740992"])
      (simp_all add: power_int_minus floor_eq_iff)
  have a5: "fl (5 / 7) = Finite (6433713753386423 / 9007199254740992)"
    by (rule fl_at' [where e = "-1" and z = "45035996273704960 / 7" and f = "6433713753386422" and M = "6433713753386423"])
      (simp_all add: power_int_minus floor_eq_iff)
  have b5: "fl (6433713753386423 / 9007199254740992 * 7) = Finite (5)"
    by (rule fl_at' [where e = "2" and z = "45035996273704961 / 8" and f = "5629499534213120" and M = "5629499534213120"])
      (simp_all add: power_int_minus floor_eq_iff)
  have a6: "fl (6 / 7) = Finite (7720456504063707 / 9007199254740992)"
    by (rule fl_at' [where e = "-1" and z = "54043195528445952 / 7" and f = "7720456504063707" and M = "7720456504063707"])
      (simp_all add: power_int_minus floor_eq_iff)
  have b6: "fl (7720456504063707 / 9007199254740992 * 7) = Finite (6)"
    by (rule fl_at' [where e = "2" and z = "54043195528445949 / 8" and f = "6755399441055743" and M = "6755399441055744"])
      (simp_all add: power_int_minus floor_eq_iff)
  have t1: "\<exists>c. fl (of_int 1 / 7) = Finite c \<and> fl (c * 7) = Finite (of_int 1)"
    by (rule exI [of _ "2573485501354569 / 18014398509481984"]) (use a1 b1 in simp)
  have t2: "\<exists>c. fl (of_int 2 / 7) = Finite c \<and> fl (c * 7) = Finite (of_int 2)"
    by (rule exI [of _ "2573485501354569 / 9007199254740992"]) (use a2 b2 in simp)
  have t3: "\<exists>c. fl (of_int 3 / 7) = Finite c \<and> fl (c * 7) = Finite (of_int 3)"
    by (rule exI [of _ "7720456504063707 / 18014398509481984"]) (use a3 b3 in simp)
  have t4: "\<exists>c. fl (of_int 4 / 7) = Finite c \<and> fl (c * 7) = Finite (of_int 4)"
    by (rule exI [of _ "2573485501354569 / 4503599627370496"]) (use a4 b4 in simp)
  have t5: "\<exists>c. fl (of_int 5 / 7) = Finite c \<and> fl (c * 7) = Finite (of_int 5)"
    by (rule exI [of _ "6433713753386423 / 9007199254740992"]) (use a5 b5 in simp)
  have t6: "\<exists>c. fl (of_int 6 / 7) = Finite c \<and> fl (c * 7) = Finite (of_int 6)"
    by (rule exI [of _ "7720456504063707 / 9007199254740992"]) (use a6 b6 in simp)
  from assms have "k = 1 \<or> k = 2 \<or> k = 3 \<or> k = 4 \<or> k = 5 \<or> k = 6" by auto
  then show ?thesis
    using t1 t2 t3 t4 t5 t6 by blast
qed

lemma fl_range:
  assumes "0 \<le> x" and "x \<le> of_int c" and "c < 2 ^ 53"
  shows "\<exists>r. fl x = Finite r \<and> 0 \<le> r \<and> r \<le> of_int c"
proof (cases "x = 0")
  case True
  then show ?thesis using assms(2) by (simp add: fl_def)
next
  case False
  have "(of_int c :: rat) < of_int (2 ^ 53)" using assms(3) by (simp only: of_int_less_iff)
  then have c: "(of_int c :: rat) < 2 ^ 53" by simp
  then have small: "\<bar>x\<bar> < 2 powi (53 - int 0)" using assms(1,2) by simp
  have s: "(0::nat) \<le> 1074" by simp
  from dyadic_over_ulp [OF False small s, of 0] obtain i
    where i: "(0::rat) / ulp x = of_int i" by auto
  from dyadic_over_ulp [OF False small s, of c] obtain j
    where j: "of_int c / ulp x = of_int j" by auto
  have p53: "(0::rat) < 2 ^ 53" by simp
  have "- max_double \<le> 0"
    using max_double_large p53 by linarith
  moreover have "of_int c \<le> max_double"
    using c max_double_large by linarith
  ultimately have "- max_double \<le> 0" and "of_int c \<le> max_double" .
  from fl_sandwich [OF False assms(1,2) i j this] show ?thesis by blast
qed

lemma fl_rel:
  assumes "2 powi (- 1022) \<le> x" and "x \<le> 2 ^ 52"
  shows "\<exists>r. fl x = Finite r \<and> x - x / 2 ^ 53 \<le> r \<and> r \<le> x + x / 2 ^ 53"
proof -
  have pos: "0 < x"
  proof -
    have "(0::rat) < 2 powi (- 1022)" by simp
    with assms(1) show ?thesis by linarith
  qed
  then have x: "x \<noteq> 0" by simp
  have "- 1022 \<le> exponent x"
    using exponent_ge [OF x, of "- 1022"] assms(1) pos by simp
  then have "- 1074 \<le> exponent x - 52" by simp
  then have "ulp x = 2 powi (exponent x - 52)" by (simp only: ulp_def max_absorb1)
  also have "\<dots> = 2 powi exponent x / 2 ^ 52"
    by (simp add: power_int_diff)
  also have "\<dots> \<le> x / 2 ^ 52"
    using exponent_bounds(1) [OF x] pos by (simp add: divide_right_mono)
  finally have u: "ulp x \<le> x / 2 ^ 52" .
  have upos: "0 < ulp x" by (rule ulp_pos)
  define r where "r = of_int (round_even (x / ulp x)) * ulp x"
  have "of_int (round_even (x / ulp x)) \<le> x / ulp x + 1 / 2"
    and "x / ulp x - 1 / 2 \<le> of_int (round_even (x / ulp x))"
    using round_even_bounds by blast+
  then have "r \<le> (x / ulp x + 1 / 2) * ulp x" and "(x / ulp x - 1 / 2) * ulp x \<le> r"
    unfolding r_def using upos by (simp_all add: mult_right_mono)
  moreover have "(x / ulp x + 1 / 2) * ulp x = x + ulp x / 2"
    and "(x / ulp x - 1 / 2) * ulp x = x - ulp x / 2"
    using upos by (simp_all add: field_simps)
  ultimately have hi: "r \<le> x + ulp x / 2" and lo: "x - ulp x / 2 \<le> r" by simp_all
  have hi': "r \<le> x + x / 2 ^ 53" and lo': "x - x / 2 ^ 53 \<le> r"
    using hi lo u by simp_all
  have "r \<le> 2 ^ 53" using hi' assms(2) pos by simp
  moreover have "0 \<le> r" using lo' pos by simp
  ultimately have "\<not> max_double < r" and "\<not> r < - max_double"
    using max_double_large by linarith+
  then have "fl x = Finite r"
    using x by (simp add: fl_def Let_def r_def)
  with hi' lo' show ?thesis by blast
qed

subsection \<open>Download trends\<close>

lemma trend_fields:
  assumes "daily = nullish (rd_downloads data) []" and "v = trend_values name data"
  shows "tr_total v = total_of daily" and "tr_avg v = avg_of daily"
    and "tr_min v = min_of daily" and "tr_max v = max_of daily"
    and "tr_sparkline v = sparkline_of daily"
  using assms by (simp_all add: trend_values_def Let_def)

lemma getDownloadTrends_ok:
  assumes "srv reqs (range_url (nullish period ''last-month'') name) = Inr resp"
    and "ok resp" and "body_json resp = Inr data"
  shows "fst (getDownloadTrends loc srv name period reqs)
    = Inr (report_text loc (trend_values name data))"
proof -
  have "fst (fetchJson srv (range_url (nullish period ''last-month'') name) reqs) = Inr data"
    using assms by (simp add: fetchJson_def fetch_def)
  then show ?thesis
    by (simp add: getDownloadTrends_fst)
qed

text \<open>
  C6, as stated: for a non-empty series the average is the quotient \<open>total / length\<close>
  of the reals, rounded half up. The code rounds the quotient to a double first: for the
  total \<open>6755399441055745\<close> (below \<open>2^53\<close>) over three days the double quotient is
  \<open>2251799813685248.5\<close> and the average \<open>2251799813685249\<close>, where the exact quotient
  rounds to \<open>2251799813685248\<close>.
\<close>

theorem getDownloadTrends_average_counterexample:
  "tr_total (trend_values ''big''
       \<lparr> rd_downloads = Some [\<lparr> dp_day = ''2025-01-01'', dp_downloads = 6755399441055745 \<rparr>,
                               \<lparr> dp_day = ''2025-01-02'', dp_downloads = 0 \<rparr>,
                               \<lparr> dp_day = ''2025-01-03'', dp_downloads = 0 \<rparr>],
         rd_start = ''2025-01-01'', rd_end = ''2025-01-03'', rd_package = None \<rparr>)
     = Finite 6755399441055745
   \<and> tr_avg (trend_values ''big''
       \<lparr> rd_downloads = Some [\<lparr> dp_day = ''2025-01-01'', dp_downloads = 6755399441055745 \<rparr>,
                               \<lparr> dp_day = ''2025-01-02'', dp_downloads = 0 \<rparr>,
                               \<lparr> dp_day = ''2025-01-03'', dp_downloads = 0 \<rparr>],
         rd_start = ''2025-01-01'', rd_end = ''2025-01-03'', rd_package = None \<rparr>)
     = Finite 2251799813685249
   \<and> \<lfloor>(6755399441055745 :: rat) / 3 + 1 / 2\<rfloor> = 2251799813685248"
proof -
  let ?daily = "[\<lparr> dp_day = ''2025-01-01'', dp_downloads = 6755399441055745 \<rparr>,
                 \<lparr> dp_day = ''2025-01-02'', dp_downloads = 0 \<rparr>,
                 \<lparr> dp_day = ''2025-01-03'', dp_downloads = 0 \<rparr>]"
  have total: "total_of ?daily = Finite 6755399441055745"
    using total_of_exact [of ?daily] by simp
  have "\<lfloor>(13510798882111490 :: rat) / 3\<rfloor> = 4503599627370496"
    by (simp add: floor_eq_iff)
  then have "round_even (13510798882111490 / 3) = 4503599627370497"
    by (simp add: round_even_eval)
  then have "fl (6755399441055745 / 3) = Finite (4503599627370497 / 2)"
    by (intro fl_at [where e = 51]) (simp_all add: power_int_minus)
  then have avg: "avg_of ?daily = Finite 2251799813685249"
    by (simp add: avg_of_def total Math_round_def)
  have "\<lfloor>(6755399441055745 :: rat) / 3 + 1 / 2\<rfloor> = 2251799813685248"
    by (simp add: floor_eq_iff)
  with total avg show ?thesis
    by (simp add: trend_values_def Let_def nullish_def)
qed

text \<open>
  C6, amended: for an empty series \<open>getDownloadTrends\<close> computes total, average, minimum
  and maximum 0 and the empty sparkline; for a non-empty series of non-negative counts
  whose sum is below \<open>2^52\<close> the total is the sum of the daily counts and the average is
  the integer nearest to the exact quotient \<open>total / length\<close>, a tie going up.
\<close>

theorem getDownloadTrends_metrics:
  assumes "srv reqs (range_url (nullish period ''last-month'') name) = Inr resp"
    and "ok resp" and "body_json resp = Inr data"
    and "daily = nullish (rd_downloads data) []" and "v = trend_values name data"
    and "\<forall>d \<in> set daily. 0 \<le> dp_downloads d"
    and "sum_list (map dp_downloads daily) < 2 ^ 52"
  shows "fst (getDownloadTrends loc srv name period reqs) = Inr (report_text loc v)
     \<and> (daily = [] \<longrightarrow>
          tr_total v = Finite 0 \<and> tr_avg v = Finite 0 \<and> tr_min v = Finite 0
          \<and> tr_max v = Finite 0 \<and> tr_sparkline v = [])
     \<and> (daily \<noteq> [] \<longrightarrow>
          tr_total v = Finite (of_int (sum_list (map dp_downloads daily)))
          \<and> (\<exists>a. tr_avg v = Finite (of_int a)
                \<and> of_int a - 1 / 2
                    \<le> (of_int (sum_list (map dp_downloads daily)) / of_nat (length daily) :: rat)
                \<and> (of_int (sum_list (map dp_downloads daily)) / of_nat (length daily) :: rat)
                    < of_int a + 1 / 2))"
proof -
  let ?t = "sum_list (map dp_downloads daily)"
  let ?q = "of_int ?t / of_nat (length daily) :: rat"
  note fields = trend_fields [OF assms(4,5)]
  have run: "fst (getDownloadTrends loc srv name period reqs) = Inr (report_text loc v)"
    using getDownloadTrends_ok [of srv reqs period name resp data loc] assms(1-3,5) by simp
  have empty: "total_of [] = Finite 0 \<and> avg_of [] = Finite 0 \<and> min_of [] = Finite 0
      \<and> max_of [] = Finite 0 \<and> sparkline_of [] = []"
    by (simp add: total_of_def avg_of_def min_of_def max_of_def sparkline_of_def)
  have t0: "0 \<le> ?t" using assms(6) by (auto intro!: sum_list_nonneg)
  have total: "total_of daily = Finite (of_int ?t)"
    using assms(6,7) by (intro total_of_exact) simp_all
  have avg: "\<exists>a. avg_of daily = Finite (of_int a) \<and> of_int a - 1 / 2 \<le> ?q \<and> ?q < of_int a + 1 / 2"
    if "daily \<noteq> []"
  proof -
    from that have len: "0 < length daily" by simp
    have "avg_of daily = Finite (of_int \<lfloor>?q + 1 / 2\<rfloor>)"
      using len avg_of_half_up [OF t0 assms(7) len] by (simp add: avg_of_def total)
    moreover have "of_int \<lfloor>?q + 1 / 2\<rfloor> - 1 / 2 \<le> ?q" and "?q < of_int \<lfloor>?q + 1 / 2\<rfloor> + 1 / 2"
      by linarith+
    ultimately show ?thesis by blast
  qed
  show ?thesis
    using run empty total avg by (auto simp: fields)
qed

theorem getDownloadTrends_metrics_witness:
  "tr_total (trend_values ''brand-new''
       \<lparr> rd_downloads = Some [], rd_start = ''2025-01-01'', rd_end = ''2025-01-14'',
         rd_package = Some ''brand-new'' \<rparr>) = Finite 0
   \<and> tr_avg (trend_values ''brand-new''
       \<lparr> rd_downloads = Some [], rd_start = ''2025-01-01'', rd_end = ''2025-01-14'',
         rd_package = Some ''brand-new'' \<rparr>) = Finite 0
   \<and> tr_min (trend_values ''brand-new''
       \<lparr> rd_downloads = Some [], rd_start = ''2025-01-01'', rd_end = ''2025-01-14'',
         rd_package = Some ''brand-new'' \<rparr>) = Finite 0
   \<and> tr_max (trend_values ''brand-new''
       \<lparr> rd_downloads = Some [], rd_start = ''2025-01-01'', rd_end = ''2025-01-14'',
         rd_package = Some ''brand-new'' \<rparr>) = Finite 0
   \<and> tr_sparkline (trend_values ''brand-new''
       \<lparr> rd_downloads = Some [], rd_start = ''2025-01-01'', rd_end = ''2025-01-14'',
         rd_package = Some ''brand-new'' \<rparr>) = []
   \<and> tr_total (trend_values ''typescript''
       \<lparr> rd_downloads = Some [\<lparr> dp_day = ''2025-01-01'', dp_downloads = 1 \<rparr>,
                               \<lparr> dp_day = ''2025-01-02'', dp_downloads = 2 \<rparr>],
         rd_start = ''2025-01-01'', rd_end = ''2025-01-02'',
         rd_package = Some ''typescript'' \<rparr>) = Finite 3
   \<and> tr_avg (trend_values ''typescript''
       \<lparr> rd_downloads = Some [\<lparr> dp_day = ''2025-01-01'', dp_downloads = 1 \<rparr>,
                               \<lparr> dp_day = ''2025-01-02'', dp_downloads = 2 \<rparr>],
         rd_start = ''2025-01-01'', rd_end = ''2025-01-02'',
         rd_package = Some ''typescript'' \<rparr>) = Finite 2"
  (is "tr_total (trend_values ?n1 ?d1) = Finite 0 \<and> _ \<and> _ \<and> _ \<and> _
     \<and> tr_total (trend_values ?n2 ?d2) = Finite 3 \<and> _")
proof -
  let ?loc = "\<lambda>n :: number. ''n''"
  let ?resp1 = "\<lparr> ok = True, status = 200, body_text = [], body_json = Inr ?d1 \<rparr>"
  let ?resp2 = "\<lparr> ok = True, status = 200, body_text = [], body_json = Inr ?d2 \<rparr>"
  let ?daily = "[\<lparr> dp_day = ''2025-01-01'', dp_downloads = 1 \<rparr>,
                 \<lparr> dp_day = ''2025-01-02'', dp_downloads = 2 \<rparr>]"
  let ?v2 = "trend_values ?n2 ?d2"
  have "ok ?resp1" and "body_json ?resp1 = Inr ?d1" and "[] = nullish (rd_downloads ?d1) []"
    and "trend_values ?n1 ?d1 = trend_values ?n1 ?d1"
    and "\<forall>d \<in> set ([] :: daily_point list). 0 \<le> dp_downloads d"
    and "sum_list (map dp_downloads ([] :: daily_point list)) < 2 ^ 52"
    by (simp_all add: nullish_def)
  from getDownloadTrends_metrics [of "\<lambda>reqs url. Inr ?resp1" "[]" None ?n1 ?resp1 ?d1 "[]" _ ?loc,
      OF refl this]
  have one: "tr_total (trend_values ?n1 ?d1) = Finite 0 \<and> tr_avg (trend_values ?n1 ?d1) = Finite 0
      \<and> tr_min (trend_values ?n1 ?d1) = Finite 0 \<and> tr_max (trend_values ?n1 ?d1) = Finite 0
      \<and> tr_sparkline (trend_values ?n1 ?d1) = []"
    by simp
  have "ok ?resp2" and "body_json ?resp2 = Inr ?d2" and "?daily = nullish (rd_downloads ?d2) []"
    and "?v2 = ?v2"
    and "\<forall>d \<in> set ?daily. 0 \<le> dp_downloads d"
    and "sum_list (map dp_downloads ?daily) < 2 ^ 52"
    by (simp_all add: nullish_def)
  from getDownloadTrends_metrics [of "\<lambda>reqs url. Inr ?resp2" "[]" None ?n2 ?resp2 ?d2 ?daily _ ?loc,
      OF refl this]
  obtain a where total: "tr_total ?v2 = Finite 3"
    and avg: "tr_avg ?v2 = Finite (of_int a)"
    and lo: "of_int a - 1 / 2 \<le> (3 / 2 :: rat)"
    and hi: "(3 / 2 :: rat) < of_int a + 1 / 2"
    by auto
  have "(of_int a :: rat) \<le> 2" and "(1 :: rat) < of_int a"
    using lo hi by simp_all
  then have "a \<le> 2" and "1 < a"
    by (simp_all only: of_int_le_numeral_iff of_int_1_less_iff)
  then have "a = 2" by simp
  with avg have "tr_avg ?v2 = Finite 2" by simp
  with total one show ?thesis by blast
qed

text \<open>
  The level of a point on the ramp: with counts between 0 and the maximum it is an index of
  \<open>blocks\<close>, and while the maximum is at most \<open>2^49\<close> the two roundings do not move the
  product across an integer, so that the level is the floor of the exact product.
\<close>

lemma blocks_length: "length blocks = 8"
  by (simp add: blocks_def)

lemma level_index_fl:
  assumes "m \<noteq> 0" and "fl (d / m) = Finite q1" and "fl (q1 * 7) = Finite y1"
    and "\<lfloor>y1\<rfloor> \<le> 7"
  shows "level_index (Finite d) (Finite m) = Finite (of_int \<lfloor>y1\<rfloor>)"
proof -
  have seven: "(of_nat (length blocks) - 1 :: rat) = 7"
    by (simp add: blocks_length)
  have "(of_int \<lfloor>y1\<rfloor> :: rat) \<le> of_int 7"
    using assms(4) by (simp only: of_int_le_iff)
  then have "\<not> (7 :: rat) < of_int \<lfloor>y1\<rfloor>" by simp
  then show ?thesis
    unfolding level_index_def seven using assms(1-3)
    by (simp add: Math_floor_def min2_def)
qed

lemma level_range:
  assumes "0 \<le> d" and "d \<le> m" and "0 < m"
  shows "\<exists>k. level_index (Finite d) (Finite m) = Finite (of_int k) \<and> 0 \<le> k \<and> k \<le> 7"
proof -
  have "0 \<le> d / m" and "d / m \<le> of_int 1"
    using assms by simp_all
  from fl_range [OF this] obtain q1
    where q1: "fl (d / m) = Finite q1" and "0 \<le> q1" and "q1 \<le> 1" by auto
  then have "0 \<le> q1 * 7" and "q1 * 7 \<le> of_int 7" by simp_all
  from fl_range [OF this] obtain y1
    where y1: "fl (q1 * 7) = Finite y1" and y0: "0 \<le> y1" and y7: "y1 \<le> 7" by auto
  have k0: "0 \<le> \<lfloor>y1\<rfloor>" using y0 by simp
  have k7: "\<lfloor>y1\<rfloor> \<le> 7" using y7 by (simp add: floor_le_iff)
  have "m \<noteq> 0" using assms(3) by simp
  from level_index_fl [OF this q1 y1 k7] k0 k7 show ?thesis by blast
qed

lemma level_floor:
  fixes d m :: int
  assumes "0 \<le> d" and "d \<le> m" and "0 < m" and "m \<le> 2 ^ 49"
  shows "\<exists>q1 y1. fl (of_int d / of_int m) = Finite q1 \<and> fl (q1 * 7) = Finite y1
    \<and> \<lfloor>y1\<rfloor> = \<lfloor>(of_int d / of_int m :: rat) * 7\<rfloor>"
proof -
  define q :: rat where "q = of_int d / of_int m"
  define K where "K = \<lfloor>q * 7\<rfloor>"
  have mpos: "(0 :: rat) < of_int m" using assms(3) by simp
  then have m0: "(0 :: rat) \<le> of_int m" by simp
  have Klo: "of_int K \<le> q * 7" and Khi: "q * 7 < of_int K + 1"
    unfolding K_def by linarith+
  consider "d = 0" | "d = m" | "0 < d" "d < m" "7 * d = K * m" | "0 < d" "d < m" "7 * d \<noteq> K * m"
    using assms(1,2) by linarith
  then have "\<exists>q1 y1. fl q = Finite q1 \<and> fl (q1 * 7) = Finite y1 \<and> \<lfloor>y1\<rfloor> = K"
  proof cases
    case 1
    then have "q = 0" and "K = 0" by (simp_all add: q_def K_def)
    then show ?thesis by (simp add: fl_def)
  next
    case 2
    then have q: "q = 1" using mpos by (simp add: q_def)
    then have K: "K = 7" by (simp add: K_def)
    have "fl (of_int 1) = Finite (of_int 1)" by (rule fl_int) simp
    moreover have "fl (of_int 7) = Finite (of_int 7)" by (rule fl_int) simp
    ultimately show ?thesis using q K by simp
  next
    case 3
    have "(7 :: rat) * of_int d = of_int (7 * d)" by simp
    also have "\<dots> = of_int (K * m)" using 3(3) by simp
    finally have "7 * of_int d = (of_int K :: rat) * of_int m" by simp
    then have qK: "q * 7 = of_int K" using mpos by (simp add: q_def field_simps)
    have "0 < K * m" using 3(1,3) by linarith
    then have "0 < K" using assms(3) by (simp add: zero_less_mult_iff)
    moreover have "K * m < 7 * m" using 3(2,3) by linarith
    then have "K < 7" using assms(3) by simp
    ultimately have "1 \<le> K" and "K \<le> 6" by simp_all
    from tie_levels [OF this] obtain c
      where c: "fl (of_int K / 7) = Finite c" and c7: "fl (c * 7) = Finite (of_int K)" by auto
    have "q = of_int K / 7" using qK by linarith
    with c have "fl q = Finite c" by (simp only:)
    moreover have "\<lfloor>(of_int K :: rat)\<rfloor> = K" by simp
    ultimately show ?thesis using c7 by blast
  next
    case 4
    define w :: rat where "w = 1 / of_int m"
    have w: "1 / 2 ^ 49 \<le> w"
    proof -
      have "(of_int m :: rat) \<le> of_int (2 ^ 49)" using assms(4) by (simp only: of_int_le_iff)
      then have "(of_int m :: rat) \<le> 2 ^ 49" by simp
      then show ?thesis unfolding w_def using mpos by (simp add: frac_le)
    qed
    have "of_int K * of_int m \<le> (7 :: rat) * of_int d"
      using Klo mpos by (simp add: q_def field_simps)
    then have "(of_int (K * m) :: rat) \<le> of_int (7 * d)" by simp
    then have "K * m \<le> 7 * d" by (simp only: of_int_le_iff)
    with 4(3) have "K * m + 1 \<le> 7 * d" by simp
    then have "(of_int (K * m + 1) :: rat) \<le> of_int (7 * d)" by (simp only: of_int_le_iff)
    then have "of_int K * of_int m + 1 \<le> (7 :: rat) * of_int d" by simp
    from divide_right_mono [OF this m0]
    have "(of_int K * of_int m + 1) / of_int m \<le> (7 :: rat) * of_int d / of_int m" .
    moreover have "(of_int K * of_int m + 1) / of_int m = of_int K + w"
      using mpos by (simp add: w_def add_divide_distrib)
    moreover have "(7 :: rat) * of_int d / of_int m = q * 7"
      by (simp add: q_def)
    ultimately have lo: "of_int K + w \<le> q * 7" by (simp only:)
    have "(7 :: rat) * of_int d < (of_int K + 1) * of_int m"
      using Khi mpos by (simp add: q_def field_simps)
    then have "(of_int (7 * d) :: rat) < of_int ((K + 1) * m)" by simp
    then have "7 * d < (K + 1) * m" by (simp only: of_int_less_iff)
    then have "7 * d + 1 \<le> (K + 1) * m" by simp
    then have "(of_int (7 * d + 1) :: rat) \<le> of_int ((K + 1) * m)" by (simp only: of_int_le_iff)
    then have "(7 :: rat) * of_int d + 1 \<le> (of_int K + 1) * of_int m" by simp
    from divide_right_mono [OF this m0]
    have "((7 :: rat) * of_int d + 1) / of_int m \<le> (of_int K + 1) * of_int m / of_int m" .
    moreover have "((7 :: rat) * of_int d + 1) / of_int m = q * 7 + w"
      by (simp add: q_def w_def add_divide_distrib)
    moreover have "(of_int K + 1) * of_int m / of_int m = (of_int K + 1 :: rat)"
      using mpos by simp
    ultimately have hi: "q * 7 + w \<le> of_int K + 1" by (simp only:)
    have "1 \<le> d" using 4(1) by simp
    then have "(of_int 1 :: rat) \<le> of_int d" by (simp only: of_int_le_iff)
    then have qw: "w \<le> q" using mpos by (simp add: q_def w_def divide_right_mono)
    have q1': "q \<le> 1" using assms(2) mpos by (simp add: q_def)
    have tiny: "(2 :: rat) powi (- 1022) \<le> 1 / 2 ^ 49"
    proof -
      have "(2 :: rat) powi (- 1022) \<le> 2 powi (- 49)"
        by (rule power_int_increasing) simp_all
      then show ?thesis by (simp add: power_int_minus field_simps)
    qed
    have n49: "(2 :: rat) ^ 49 = 562949953421312" and n52: "(2 :: rat) ^ 52 = 4503599627370496"
      and n53: "(2 :: rat) ^ 53 = 9007199254740992" by simp_all
    have "2 powi (- 1022) \<le> q" and "q \<le> 2 ^ 52"
      using tiny w qw q1' unfolding n49 n52 by linarith+
    from fl_rel [OF this] obtain q1
      where q1: "fl q = Finite q1" and q1lo: "q - q / 2 ^ 53 \<le> q1" and q1hi: "q1 \<le> q + q / 2 ^ 53"
      by auto
    have "2 powi (- 1022) \<le> q1 * 7" and "q1 * 7 \<le> 2 ^ 52"
      using tiny w qw q1' q1lo q1hi unfolding n49 n52 n53 by linarith+
    from fl_rel [OF this] obtain y1
      where y1: "fl (q1 * 7) = Finite y1" and y1lo: "q1 * 7 - q1 * 7 / 2 ^ 53 \<le> y1"
        and y1hi: "y1 \<le> q1 * 7 + q1 * 7 / 2 ^ 53"
      by auto
    have "of_int K \<le> y1" and "y1 < of_int K + 1"
      using w qw q1' q1lo q1hi y1lo y1hi lo hi unfolding n49 n53 by linarith+
    then have "\<lfloor>y1\<rfloor> = K" by (simp add: floor_eq_iff)
    with q1 y1 show ?thesis by blast
  qed
  then show ?thesis by (simp add: q_def K_def)
qed

lemma level_exact:
  fixes d m :: int
  assumes "0 \<le> d" and "d \<le> m" and "0 < m" and "m \<le> 2 ^ 49"
  shows "level_index (Finite (of_int d)) (Finite (of_int m))
    = Finite (of_int \<lfloor>(of_int d / of_int m :: rat) * 7\<rfloor>)"
proof -
  from level_floor [OF assms] obtain q1 y1
    where q1: "fl (of_int d / of_int m) = Finite q1" and y1: "fl (q1 * 7) = Finite y1"
      and fl: "\<lfloor>y1\<rfloor> = \<lfloor>(of_int d / of_int m :: rat) * 7\<rfloor>" by auto
  have "(of_int d / of_int m :: rat) \<le> 1" using assms(2,3) by simp
  from mult_right_mono [OF this, of 7]
  have "(of_int d / of_int m :: rat) * 7 \<le> 7" by simp
  then have "\<lfloor>y1\<rfloor> \<le> 7" unfolding fl by (simp add: floor_le_iff)
  moreover have "(of_int m :: rat) \<noteq> 0" using assms(3) by simp
  ultimately show ?thesis using level_index_fl [OF _ q1 y1] fl by simp
qed

lemma glyph_at_level:
  assumes "0 \<le> k" and "k \<le> 7"
  shows "glyph_at (Finite (of_int k)) = [blocks ! nat k]"
  using assms by (simp add: glyph_at_def blocks_length)

lemma concat_singletons:
  assumes "\<forall>x \<in> set xs. \<exists>y. f x = [y]"
  shows "length (concat (map f xs)) = length xs
    \<and> (\<forall>i < length xs. f (xs ! i) = [concat (map f xs) ! i])"
  using assms
proof (induction xs)
  case Nil
  then show ?case by simp
next
  case (Cons x xs)
  then obtain y where y: "f x = [y]" by auto
  from Cons have IH: "length (concat (map f xs)) = length xs"
    "\<And>i. i < length xs \<Longrightarrow> f (xs ! i) = [concat (map f xs) ! i]" by auto
  show ?case
  proof (intro conjI allI impI)
    show "length (concat (map f (x # xs))) = length (x # xs)" using y IH(1) by simp
  next
    fix i assume "i < length (x # xs)"
    then show "f ((x # xs) ! i) = [concat (map f (x # xs)) ! i]"
      using y IH(2) by (cases i) simp_all
  qed
qed

lemma sparkline_levels:
  assumes "daily \<noteq> []"
    and "\<forall>d \<in> set daily. 0 \<le> dp_downloads d \<and> dp_downloads d < 2 ^ 53"
    and "mx = Max (set (map dp_downloads daily))" and "0 < mx"
  shows "max_of daily = Finite (of_int mx)"
    and "length (sparkline_of daily) = length daily"
    and "\<forall>i < length daily. \<exists>k.
           level_index (num (dp_downloads (daily ! i))) (max_of daily) = Finite (of_int k)
           \<and> 0 \<le> k \<and> k \<le> 7 \<and> sparkline_of daily ! i = blocks ! nat k
           \<and> (mx \<le> 2 ^ 49 \<longrightarrow>
                k = min \<lfloor>(of_int (dp_downloads (daily ! i)) / of_int mx :: rat) * 7\<rfloor> 7)"
proof -
  define f where "f = (\<lambda>d :: daily_point. glyph_at (level_index (num (dp_downloads d)) (max_of daily)))"
  have small: "\<forall>d \<in> set daily. \<bar>dp_downloads d\<bar> < 2 ^ 53"
    using assms(2) by auto
  show mx: "max_of daily = Finite (of_int mx)"
    using max_of_exact [OF assms(1) small] assms(3) by simp
  have mpos: "(0 :: rat) < of_int mx" using assms(4) by simp
  have level: "\<exists>k. level_index (num (dp_downloads d)) (max_of daily) = Finite (of_int k)
      \<and> 0 \<le> k \<and> k \<le> 7 \<and> f d = [blocks ! nat k]
      \<and> (mx \<le> 2 ^ 49 \<longrightarrow> k = min \<lfloor>(of_int (dp_downloads d) / of_int mx :: rat) * 7\<rfloor> 7)"
    if d: "d \<in> set daily" for d
  proof -
    have d0: "0 \<le> dp_downloads d" and "\<bar>dp_downloads d\<bar> < 2 ^ 53"
      using assms(2) small d by auto
    then have n: "num (dp_downloads d) = Finite (of_int (dp_downloads d))"
      by (simp add: num_exact)
    have "dp_downloads d \<in> set (map dp_downloads daily)" using d by simp
    then have dm: "dp_downloads d \<le> mx" unfolding assms(3) by (intro Max_ge) simp_all
    have "(0 :: rat) \<le> of_int (dp_downloads d)" and "(of_int (dp_downloads d) :: rat) \<le> of_int mx"
      using d0 dm by simp_all
    from level_range [OF this mpos] obtain k
      where k: "level_index (Finite (of_int (dp_downloads d))) (Finite (of_int mx)) = Finite (of_int k)"
        and k0: "0 \<le> k" and k7: "k \<le> 7" by auto
    have g: "f d = [blocks ! nat k]"
      unfolding f_def n mx k by (rule glyph_at_level [OF k0 k7])
    have "k = min \<lfloor>(of_int (dp_downloads d) / of_int mx :: rat) * 7\<rfloor> 7" if "mx \<le> 2 ^ 49"
    proof -
      from level_exact [OF d0 dm assms(4) that] k
      have "(of_int k :: rat) = of_int \<lfloor>(of_int (dp_downloads d) / of_int mx :: rat) * 7\<rfloor>"
        by simp
      then have "k = \<lfloor>(of_int (dp_downloads d) / of_int mx :: rat) * 7\<rfloor>"
        by (simp only: of_int_eq_iff)
      with k7 show ?thesis by simp
    qed
    with k k0 k7 g show ?thesis unfolding n mx by blast
  qed
  then have "\<forall>d \<in> set daily. \<exists>y. f d = [y]" by blast
  from concat_singletons [OF this]
  have len: "length (concat (map f daily)) = length daily"
    and nth: "\<And>i. i < length daily \<Longrightarrow> f (daily ! i) = [concat (map f daily) ! i]"
    by auto
  have spark: "sparkline_of daily = concat (map f daily)"
    using assms(1) mpos by (simp add: sparkline_of_def mx f_def)
  show "length (sparkline_of daily) = length daily"
    using len spark by simp
  show "\<forall>i < length daily. \<exists>k.
           level_index (num (dp_downloads (daily ! i))) (max_of daily) = Finite (of_int k)
           \<and> 0 \<le> k \<and> k \<le> 7 \<and> sparkline_of daily ! i = blocks ! nat k
           \<and> (mx \<le> 2 ^ 49 \<longrightarrow>
                k = min \<lfloor>(of_int (dp_downloads (daily ! i)) / of_int mx :: rat) * 7\<rfloor> 7)"
  proof (intro allI impI)
    fix i assume i: "i < length daily"
    then have "daily ! i \<in> set daily" by simp
    from level [OF this] obtain k
      where k: "level_index (num (dp_downloads (daily ! i))) (max_of daily) = Finite (of_int k)"
        "0 \<le> k" "k \<le> 7"
        "mx \<le> 2 ^ 49 \<longrightarrow> k = min \<lfloor>(of_int (dp_downloads (daily ! i)) / of_int mx :: rat) * 7\<rfloor> 7"
        and g: "f (daily ! i) = [blocks ! nat k]"
      by blast
    from nth [OF i] g have "sparkline_of daily ! i = blocks ! nat k"
      by (simp add: spark)
    with k show "\<exists>k.
           level_index (num (dp_downloads (daily ! i))) (max_of daily) = Finite (of_int k)
           \<and> 0 \<le> k \<and> k \<le> 7 \<and> sparkline_of daily ! i = blocks ! nat k
           \<and> (mx \<le> 2 ^ 49 \<longrightarrow>
                k = min \<lfloor>(of_int (dp_downloads (daily ! i)) / of_int mx :: rat) * 7\<rfloor> 7)"
      by blast
  qed
qed

lemma sparkline_glyphs:
  assumes "length s = n"
    and "\<forall>i < n. \<exists>k :: int. 0 \<le> k \<and> k \<le> 7 \<and> s ! i = blocks ! nat k"
  shows "set s \<subseteq> set blocks"
proof
  fix g assume "g \<in> set s"
  then obtain i where i: "i < length s" and g: "s ! i = g"
    by (auto simp: in_set_conv_nth)
  with assms obtain k :: int where k: "0 \<le> k" "k \<le> 7" and s: "s ! i = blocks ! nat k"
    by blast
  have "nat k < length blocks" using k by (simp add: blocks_length)
  from nth_mem [OF this] show "g \<in> set blocks" using g s by simp
qed

text \<open>
  C7, as stated: the level of every point is \<open>floor((downloads / max) * 7)\<close>, clamped to
  0..7. The code rounds the quotient and the product to doubles before the floor: in the
  series \<open>2857142857142857, 4000000000000000\<close> (both below \<open>2^53\<close>) the exact product is
  just below 5 and its floor 4, the glyph U+2585, while the rounded product is 5 and the code
  draws U+2586.
\<close>

theorem getDownloadTrends_sparkline_counterexample:
  "tr_max (trend_values ''big''
       \<lparr> rd_downloads = Some [\<lparr> dp_day = ''2025-01-01'', dp_downloads = 2857142857142857 \<rparr>,
                               \<lparr> dp_day = ''2025-01-02'', dp_downloads = 4000000000000000 \<rparr>],
         rd_start = ''2025-01-01'', rd_end = ''2025-01-02'', rd_package = None \<rparr>)
     = Finite 4000000000000000
   \<and> level_index (num 2857142857142857) (Finite 4000000000000000) = Finite 5
   \<and> tr_sparkline (trend_values ''big''
       \<lparr> rd_downloads = Some [\<lparr> dp_day = ''2025-01-01'', dp_downloads = 2857142857142857 \<rparr>,
                               \<lparr> dp_day = ''2025-01-02'', dp_downloads = 4000000000000000 \<rparr>],
         rd_start = ''2025-01-01'', rd_end = ''2025-01-02'', rd_package = None \<rparr>)
     = [0x2586, 0x2588]
   \<and> min \<lfloor>(2857142857142857 / 4000000000000000 :: rat) * 7\<rfloor> 7 = 4
   \<and> blocks ! 4 = 0x2585"
proof -
  let ?daily = "[\<lparr> dp_day = ''2025-01-01'', dp_downloads = 2857142857142857 \<rparr>,
                 \<lparr> dp_day = ''2025-01-02'', dp_downloads = 4000000000000000 \<rparr>]"
  have mx: "max_of ?daily = Finite 4000000000000000"
    using max_of_exact [of ?daily] by simp
  have n1: "num 2857142857142857 = Finite 2857142857142857"
    using num_exact [of 2857142857142857] by simp
  have n2: "num 4000000000000000 = Finite 4000000000000000"
    using num_exact [of 4000000000000000] by simp
  have q1: "fl (2857142857142857 / 4000000000000000) = Finite (6433713753386423 / 9007199254740992)"
    by (rule fl_at' [where e = "-1" and z = "196341362102857133040074752 / 30517578125"
          and f = "6433713753386422" and M = "6433713753386423"])
      (simp_all add: power_int_minus floor_eq_iff)
  have y1: "fl (6433713753386423 / 9007199254740992 * 7) = Finite 5"
    by (rule fl_at' [where e = "2" and z = "45035996273704961 / 8"
          and f = "5629499534213120" and M = "5629499534213120"])
      (simp_all add: power_int_minus floor_eq_iff)
  have l1: "level_index (Finite 2857142857142857) (Finite 4000000000000000) = Finite 5"
    using level_index_fl [OF _ q1 y1] by simp
  have "fl (of_int 1) = Finite (of_int 1)" and "fl (of_int 7) = Finite (of_int 7)"
    by (rule fl_int, simp)+
  then have "fl (4000000000000000 / 4000000000000000) = Finite 1" and "fl (1 * 7) = Finite 7"
    by simp_all
  from level_index_fl [OF _ this]
  have l2: "level_index (Finite 4000000000000000) (Finite 4000000000000000) = Finite 7"
    by simp
  have g5: "glyph_at (Finite 5) = [0x2586]" and g7: "glyph_at (Finite 7) = [0x2588]"
    by (simp_all add: glyph_at_def blocks_def)
  have spark: "sparkline_of ?daily = [0x2586, 0x2588]"
    by (simp add: sparkline_of_def mx n1 n2 l1 l2 g5 g7)
  have "min \<lfloor>(2857142857142857 / 4000000000000000 :: rat) * 7\<rfloor> 7 = 4"
    by (simp add: floor_eq_iff)
  moreover have "blocks ! 4 = 0x2585" by (simp add: blocks_def)
  ultimately show ?thesis
    using mx spark l1 n1 by (simp add: trend_values_def Let_def nullish_def)
qed

text \<open>
  C7, amended: for a non-empty series of counts from 0 to below \<open>2^53\<close> whose maximum is
  positive, \<open>max\<close> is the maximum of the series, the sparkline has one glyph for each point,
  every glyph is one of the 8 levels of \<open>blocks\<close>, the glyph of a point is the level at the
  index the code computes, an integer from 0 to 7, and while the maximum is at most \<open>2^49\<close>
  that index is \<open>floor((downloads / max) * 7)\<close> of the exact quotient, clamped to 7.
\<close>

theorem getDownloadTrends_sparkline:
  assumes "srv reqs (range_url (nullish period ''last-month'') name) = Inr resp"
    and "ok resp" and "body_json resp = Inr data"
    and "daily = nullish (rd_downloads data) []" and "v = trend_values name data"
    and "daily \<noteq> []"
    and "\<forall>d \<in> set daily. 0 \<le> dp_downloads d \<and> dp_downloads d < 2 ^ 53"
    and "mx = Max (set (map dp_downloads daily))" and "0 < mx"
  shows "fst (getDownloadTrends loc srv name period reqs) = Inr (report_text loc v)
     \<and> tr_max v = Finite (of_int mx)
     \<and> length (tr_sparkline v) = length daily
     \<and> length blocks = 8
     \<and> set (tr_sparkline v) \<subseteq> set blocks
     \<and> (\<forall>i < length daily. \<exists>k.
          level_index (num (dp_downloads (daily ! i))) (tr_max v) = Finite (of_int k)
          \<and> 0 \<le> k \<and> k \<le> 7 \<and> tr_sparkline v ! i = blocks ! nat k
          \<and> (mx \<le> 2 ^ 49 \<longrightarrow>
               k = min \<lfloor>(of_int (dp_downloads (daily ! i)) / of_int mx :: rat) * 7\<rfloor> 7))"
proof -
  note fields = trend_fields [OF assms(4,5)]
  note levels = sparkline_levels [OF assms(6-9)]
  have run: "fst (getDownloadTrends loc srv name period reqs) = Inr (report_text loc v)"
    using getDownloadTrends_ok [of srv reqs period name resp data loc] assms(1-3,5) by simp
  have "\<forall>i < length daily. \<exists>k :: int. 0 \<le> k \<and> k \<le> 7 \<and> sparkline_of daily ! i = blocks ! nat k"
    using levels(3) by blast
  from sparkline_glyphs [OF levels(2) this]
  have glyphs: "set (sparkline_of daily) \<subseteq> set blocks" .
  show ?thesis
    unfolding fields using run levels glyphs blocks_length by (intro conjI)
qed

theorem getDownloadTrends_sparkline_witness:
  "tr_max (trend_values ''typescript''
       \<lparr> rd_downloads = Some [\<lparr> dp_day = ''2025-01-01'', dp_downloads = 1000 \<rparr>,
                               \<lparr> dp_day = ''2025-01-02'', dp_downloads = 1500 \<rparr>,
                               \<lparr> dp_day = ''2025-01-03'', dp_downloads = 2000 \<rparr>],
         rd_start = ''2025-01-01'', rd_end = ''2025-01-03'',
         rd_package = Some ''typescript'' \<rparr>) = Finite 2000
   \<and> tr_sparkline (trend_values ''typescript''
       \<lparr> rd_downloads = Some [\<lparr> dp_day = ''2025-01-01'', dp_downloads = 1000 \<rparr>,
                               \<lparr> dp_day = ''2025-01-02'', dp_downloads = 1500 \<rparr>,
                               \<lparr> dp_day = ''2025-01-03'', dp_downloads = 2000 \<rparr>],
         rd_start = ''2025-01-01'', rd_end = ''2025-01-03'',
         rd_package = Some ''typescript'' \<rparr>) = [0x2584, 0x2586, 0x2588]"
  (is "tr_max (trend_values ?n ?d) = Finite 2000 \<and> _")
proof -
  let ?loc = "\<lambda>n :: number. ''n''"
  let ?resp = "\<lparr> ok = True, status = 200, body_text = [], body_json = Inr ?d \<rparr>"
  let ?daily = "[\<lparr> dp_day = ''2025-01-01'', dp_downloads = 1000 \<rparr>,
                 \<lparr> dp_day = ''2025-01-02'', dp_downloads = 1500 \<rparr>,
                 \<lparr> dp_day = ''2025-01-03'', dp_downloads = 2000 \<rparr>]"
  let ?v = "trend_values ?n ?d"
  let ?s = "tr_sparkline ?v"
  have "ok ?resp" and "body_json ?resp = Inr ?d" and "?daily = nullish (rd_downloads ?d) []"
    and "?v = ?v" and "?daily \<noteq> []"
    and "\<forall>d \<in> set ?daily. 0 \<le> dp_downloads d \<and> dp_downloads d < 2 ^ 53"
    and "2000 = Max (set (map dp_downloads ?daily))" and "(0 :: int) < 2000"
    by (simp_all add: nullish_def)
  from getDownloadTrends_sparkline [of "\<lambda>reqs url. Inr ?resp" "[]" None ?n ?resp ?d ?daily _ 2000 ?loc,
      OF refl this]
  have mx: "tr_max ?v = Finite 2000" and len: "length ?s = length ?daily"
    and lev: "\<forall>i < length ?daily. \<exists>k. 0 \<le> k \<and> k \<le> 7 \<and> ?s ! i = blocks ! nat k
        \<and> k = min \<lfloor>(of_int (dp_downloads (?daily ! i)) / of_int 2000 :: rat) * 7\<rfloor> 7"
    by auto
  have f0: "\<lfloor>(1000 / 2000 :: rat) * 7\<rfloor> = 3" and f1: "\<lfloor>(1500 / 2000 :: rat) * 7\<rfloor> = 5"
    and f2: "\<lfloor>(2000 / 2000 :: rat) * 7\<rfloor> = 7"
    by (simp_all add: floor_eq_iff)
  have l3: "length ?daily = 3" by simp
  from lev [unfolded l3, rule_format, of 0] f0 have s0: "?s ! 0 = 0x2584"
    by (simp add: blocks_def)
  from lev [unfolded l3, rule_format, of 1] f1 have s1: "?s ! 1 = 0x2586"
    by (simp add: blocks_def)
  from lev [unfolded l3, rule_format, of 2] f2 have s2: "?s ! 2 = 0x2588"
    by (simp add: blocks_def)
  from len l3 have "length ?s = 3" by (simp only:)
  then obtain a b c where abc: "?s = [a, b, c]"
    by (auto simp: length_Suc_conv numeral_3_eq_3)
  from s0 s1 s2 have "?s = [0x2584, 0x2586, 0x2588]"
    unfolding abc by simp
  with mx show ?thesis by (simp only: simp_thms)
qed

subsection \<open>Comparing downloads\<close>

lemma getDownloads_period:
  "getDownloads srv name (Some (nullish period ''last-month'')) reqs = getDownloads srv name period reqs"
  by (simp add: getDownloads_def nullish_def)

lemma map_getDownloads_Cons:
  "map_getDownloads srv (pkg # pkgs) period reqs =
     (fst (getDownloads srv pkg (Some period) reqs)
        # fst (map_getDownloads srv pkgs period (reqs @ [point_url period pkg])),
      snd (map_getDownloads srv pkgs period (reqs @ [point_url period pkg])))"
proof -
  have "snd (getDownloads srv pkg (Some period) reqs) = reqs @ [point_url period pkg]"
    by (simp add: getDownloads_requests nullish_def)
  then show ?thesis
    by (simp add: case_prod_beta)
qed

lemma map_getDownloads_requests:
  "snd (map_getDownloads srv pkgs period reqs) = reqs @ map (point_url period) pkgs"
  by (induction pkgs arbitrary: reqs)
    (simp_all add: map_getDownloads_Cons del: map_getDownloads.simps(2))

lemma map_getDownloads_length:
  "length (fst (map_getDownloads srv pkgs period reqs)) = length pkgs"
  by (induction pkgs arbitrary: reqs)
    (simp_all add: map_getDownloads_Cons del: map_getDownloads.simps(2))

lemma map_getDownloads_nth:
  "i < length pkgs \<Longrightarrow>
   fst (map_getDownloads srv pkgs period reqs) ! i =
   fst (getDownloads srv (pkgs ! i) (Some period) (reqs @ map (point_url period) (take i pkgs)))"
proof (induction pkgs arbitrary: reqs i)
  case Nil
  then show ?case by simp
next
  case (Cons pkg pkgs)
  show ?case
  proof (cases i)
    case 0
    then show ?thesis
      by (simp add: map_getDownloads_Cons del: map_getDownloads.simps(2))
  next
    case (Suc j)
    with Cons.prems have "j < length pkgs" by simp
    from Cons.IH [OF this, of "reqs @ [point_url period pkg]"] Suc
    show ?thesis
      by (simp add: map_getDownloads_Cons del: map_getDownloads.simps(2))
  qed
qed

lemma those_Some_iff: "those xs = Some ys \<longleftrightarrow> xs = map Some ys"
  by (induction xs arbitrary: ys) (auto split: option.splits)

lemma those_None_iff: "those xs = None \<longleftrightarrow> None \<in> set xs"
  by (induction xs) (auto split: option.splits)

lemma settle_fulfilled:
  assumes "length vals = length vs"
    and "\<forall>j < length vs. vals ! j = None \<or> vals ! j = Some (vs ! j)"
    and "None \<in> set vals"
    and "\<forall>j < length vs. vals ! j = None \<longrightarrow> j \<in> set sched"
  shows "settle sched (map Inr vs) vals = Some (Inr vs)"
  using assms
proof (induction sched arbitrary: vals)
  case Nil
  from Nil.prems(3) obtain j where j: "j < length vals" "vals ! j = None"
    by (metis in_set_conv_nth)
  with Nil.prems(1) have "j < length vs" by simp
  with Nil.prems(4) j(2) have "j \<in> set []" by blast
  then show ?case by simp
next
  case (Cons i sched)
  show ?case
  proof (cases "length vs \<le> i \<or> vals ! i \<noteq> None")
    case True
    have "\<forall>j < length vs. vals ! j = None \<longrightarrow> j \<in> set sched"
    proof (intro allI impI)
      fix j assume j: "j < length vs" "vals ! j = None"
      with Cons.prems(4) have "j \<in> set (i # sched)" by simp
      moreover have "j \<noteq> i" using True j by auto
      ultimately show "j \<in> set sched" by simp
    qed
    from Cons.IH [OF Cons.prems(1,2,3) this] True show ?thesis
      by simp
  next
    case False
    then have i: "i < length vs" and unset: "vals ! i = None" by simp_all
    let ?vals = "vals[i := Some (vs ! i)]"
    have len: "length ?vals = length vs" using Cons.prems(1) by simp
    have inv: "\<forall>j < length vs. ?vals ! j = None \<or> ?vals ! j = Some (vs ! j)"
    proof (intro allI impI)
      fix j assume j: "j < length vs"
      show "?vals ! j = None \<or> ?vals ! j = Some (vs ! j)"
      proof (cases "j = i")
        case True
        then show ?thesis using i Cons.prems(1) by simp
      next
        case False
        then have "?vals ! j = vals ! j" by simp
        with Cons.prems(2) j show ?thesis by simp
      qed
    qed
    have cover: "\<forall>j < length vs. ?vals ! j = None \<longrightarrow> j \<in> set sched"
    proof (intro allI impI)
      fix j assume j: "j < length vs" "?vals ! j = None"
      then have "j \<noteq> i" using Cons.prems(1) by auto
      with j have "vals ! j = None" by simp
      with j(1) Cons.prems(4) have "j \<in> set (i # sched)" by simp
      with \<open>j \<noteq> i\<close> show "j \<in> set sched" by simp
    qed
    show ?thesis
    proof (cases "those ?vals")
      case None
      then have "None \<in> set ?vals" by (simp add: those_None_iff)
      from Cons.IH [OF len inv this cover] None False i show ?thesis
        by simp
    next
      case (Some ws)
      then have ws: "?vals = map Some ws" by (simp add: those_Some_iff)
      have "ws = vs"
      proof (rule nth_equalityI)
        show "length ws = length vs" using ws len by (metis length_map)
      next
        fix j assume "j < length ws"
        then have j: "j < length vs" using ws len by (metis length_map)
        then have "?vals ! j = Some (ws ! j)" using ws \<open>j < length ws\<close> by simp
        with inv j show "ws ! j = vs ! j" by auto
      qed
      with Some False i show ?thesis
        by simp
    qed
  qed
qed

lemma Promise_all_fulfilled:
  assumes "\<forall>j < length vs. j \<in> set sched"
  shows "Promise_all sched (map Inr vs) = Some (Inr vs)"
proof (cases "vs = []")
  case True
  then show ?thesis by (simp add: Promise_all_def)
next
  case False
  have "settle sched (map Inr vs) (replicate (length vs) None) = Some (Inr vs)"
    by (rule settle_fulfilled) (use False assms in simp_all)
  with False show ?thesis
    by (simp add: Promise_all_def)
qed

lemma settle_first_rejection:
  assumes "length vals = length promises"
    and "k < length promises" and "promises ! k = Inl e" and "vals ! k = None"
    and "\<forall>i \<in> set pre. i < length promises \<longrightarrow> (\<exists>v. promises ! i = Inr v)"
  shows "settle (pre @ k # rest) promises vals = Some (Inl e)"
  using assms
proof (induction pre arbitrary: vals)
  case Nil
  then show ?case by simp
next
  case (Cons i pre)
  have later: "\<forall>j \<in> set pre. j < length promises \<longrightarrow> (\<exists>v. promises ! j = Inr v)"
    using Cons.prems(5) by simp
  show ?case
  proof (cases "length promises \<le> i \<or> vals ! i \<noteq> None")
    case True
    from Cons.IH [OF Cons.prems(1-4) later] True show ?thesis
      by simp
  next
    case False
    then have i: "i < length promises" and "vals ! i = None" by simp_all
    with Cons.prems(5) obtain v where v: "promises ! i = Inr v" by auto
    with Cons.prems(3) have "i \<noteq> k" by auto
    let ?vals = "vals[i := Some v]"
    have len: "length ?vals = length promises" using Cons.prems(1) by simp
    have unset: "?vals ! k = None" using Cons.prems(4) \<open>i \<noteq> k\<close> by simp
    have "k < length ?vals" using len Cons.prems(2) by simp
    with unset have "None \<in> set ?vals" by (metis nth_mem)
    then have "those ?vals = None" by (simp add: those_None_iff)
    with Cons.IH [OF len Cons.prems(2,3) unset later] False v show ?thesis
      by simp
  qed
qed

lemma Promise_all_rejected:
  assumes "k < length promises" and "promises ! k = Inl e" and "k \<in> set sched"
  shows "\<exists>j e'. j < length promises \<and> promises ! j = Inl e'
           \<and> Promise_all sched promises = Some (Inl e')"
proof -
  let ?P = "\<lambda>j. j < length promises \<and> (\<exists>e'. promises ! j = Inl e')"
  have "\<exists>j \<in> set sched. ?P j" using assms by blast
  then obtain pre j rest where sched: "sched = pre @ j # rest" and j: "?P j"
    and pre: "\<forall>i \<in> set pre. \<not> ?P i"
    by (rule split_list_first_propE)
  from j obtain e' where e': "promises ! j = Inl e'" by blast
  have fulfilled: "\<forall>i \<in> set pre. i < length promises \<longrightarrow> (\<exists>v. promises ! i = Inr v)"
  proof (intro ballI impI)
    fix i assume "i \<in> set pre" and "i < length promises"
    with pre have "\<not> (\<exists>e'. promises ! i = Inl e')" by blast
    then show "\<exists>v. promises ! i = Inr v" by (cases "promises ! i") auto
  qed
  have "settle (pre @ j # rest) promises (replicate (length promises) None) = Some (Inl e')"
    by (rule settle_first_rejection) (use j e' fulfilled in simp_all)
  moreover have "promises \<noteq> []" using assms(1) by auto
  ultimately have "Promise_all sched promises = Some (Inl e')"
    by (simp add: Promise_all_def sched)
  with j e' show ?thesis by blast
qed

lemma compareDownloads_fst:
  "fst (compareDownloads sched srv packages period reqs) =
     Promise_all sched (fst (map_getDownloads srv packages (nullish period ''last-month'') reqs))"
  by (simp add: compareDownloads_def case_prod_beta)

lemma compareDownloads_requests:
  "snd (compareDownloads sched srv packages period reqs) =
     reqs @ map (point_url (nullish period ''last-month'')) packages"
  by (simp add: compareDownloads_def case_prod_beta map_getDownloads_requests)

lemma promise_nth:
  "i < length packages \<Longrightarrow>
   fst (map_getDownloads srv packages (nullish period ''last-month'') reqs) ! i =
   fst (getDownloads srv (packages ! i) period
          (reqs @ map (point_url (nullish period ''last-month'')) (take i packages)))"
  by (simp add: map_getDownloads_nth getDownloads_period)

lemma compareDownloads_fulfilled:
  assumes "\<forall>i < length packages. i \<in> set sched"
    and "\<forall>i < length packages. \<exists>d.
           fst (getDownloads srv (packages ! i) period
                  (reqs @ map (point_url (nullish period ''last-month'')) (take i packages))) = Inr d"
  shows "\<exists>rs. fst (compareDownloads sched srv packages period reqs) = Some (Inr rs)
     \<and> length rs = length packages
     \<and> (\<forall>i < length packages.
          fst (getDownloads srv (packages ! i) period
                 (reqs @ map (point_url (nullish period ''last-month'')) (take i packages)))
          = Inr (rs ! i))"
proof -
  let ?promises = "fst (map_getDownloads srv packages (nullish period ''last-month'') reqs)"
  let ?rs = "map projr ?promises"
  have len: "length ?promises = length packages"
    by (rule map_getDownloads_length)
  have each: "?promises ! i = Inr (?rs ! i)" if "i < length packages" for i
  proof -
    from assms(2) that obtain d where "?promises ! i = Inr d"
      by (auto simp: promise_nth)
    then show ?thesis using that len by simp
  qed
  have "?promises = map Inr ?rs"
    by (rule nth_equalityI) (use len each in simp_all)
  moreover have "Promise_all sched (map Inr ?rs) = Some (Inr ?rs)"
    by (rule Promise_all_fulfilled) (use assms(1) len in simp)
  ultimately have "fst (compareDownloads sched srv packages period reqs) = Some (Inr ?rs)"
    by (simp add: compareDownloads_fst)
  moreover have "length ?rs = length packages" using len by simp
  moreover have "\<forall>i < length packages.
      fst (getDownloads srv (packages ! i) period
             (reqs @ map (point_url (nullish period ''last-month'')) (take i packages)))
      = Inr (?rs ! i)"
    using each by (simp add: promise_nth)
  ultimately show ?thesis by blast
qed

text \<open>
  C3. When every fetch completes, in whatever order, and every \<open>getDownloads\<close>
  succeeds, \<open>compareDownloads\<close> returns one \<open>DownloadStats\<close> for each input package,
  and its \<open>i\<close>-th element is the result of \<open>getDownloads\<close> for the \<open>i\<close>-th package
  (whose request is the \<open>i\<close>-th one issued).
\<close>

theorem compareDownloads_order:
  assumes "\<forall>i < length packages. i \<in> set sched"
    and "\<forall>i < length packages. \<exists>d.
           fst (getDownloads srv (packages ! i) period
                  (reqs @ map (point_url (nullish period ''last-month'')) (take i packages))) = Inr d"
  shows "\<exists>rs. fst (compareDownloads sched srv packages period reqs) = Some (Inr rs)
     \<and> length rs = length packages
     \<and> (\<forall>i < length packages.
          fst (getDownloads srv (packages ! i) period
                 (reqs @ map (point_url (nullish period ''last-month'')) (take i packages)))
          = Inr (rs ! i))"
  using assms by (rule compareDownloads_fulfilled)

theorem compareDownloads_order_witness:
  "fst (compareDownloads [1, 0]
      (\<lambda>reqs url.
         if reqs = []
         then Inr \<lparr> ok = True, status = 200, body_text = [], body_json = Inr
                \<lparr> pt_package = Some ''zustand'', pt_downloads = 5000000,
                  pt_start = ''2025-01-01'', pt_end = ''2025-01-31'' \<rparr> \<rparr>
         else Inr \<lparr> ok = True, status = 200, body_text = [], body_json = Inr
                \<lparr> pt_package = Some ''jotai'', pt_downloads = 2000000,
                  pt_start = ''2025-01-01'', pt_end = ''2025-01-31'' \<rparr> \<rparr>)
      [''zustand'', ''jotai''] None [])
   = Some (Inr [\<lparr> ds_package = ''zustand'', ds_downloads = 5000000,
                   ds_start = ''2025-01-01'', ds_end = ''2025-01-31'' \<rparr>,
                 \<lparr> ds_package = ''jotai'', ds_downloads = 2000000,
                   ds_start = ''2025-01-01'', ds_end = ''2025-01-31'' \<rparr>])"
  (is "fst (compareDownloads ?sched ?srv ?pkgs ?period ?reqs) = Some (Inr [?a, ?b])")
proof -
  have cover: "\<forall>i < length ?pkgs. i \<in> set ?sched"
    by (auto simp: less_Suc_eq)
  have first: "fst (getDownloads ?srv ''zustand'' ?period []) = Inr ?a"
    by (simp add: getDownloads_def fetchJson_def fetch_def download_stats_def nullish_def)
  have second: "fst (getDownloads ?srv ''jotai'' ?period [point_url ''last-month'' ''zustand'']) = Inr ?b"
    by (simp add: getDownloads_def fetchJson_def fetch_def download_stats_def nullish_def)
  have "\<forall>i < length ?pkgs. \<exists>d.
      fst (getDownloads ?srv (?pkgs ! i) ?period
             (?reqs @ map (point_url (nullish ?period ''last-month'')) (take i ?pkgs))) = Inr d"
    using first second by (auto simp: less_Suc_eq nullish_def)
  from compareDownloads_order [OF cover this] obtain rs
    where run: "fst (compareDownloads ?sched ?srv ?pkgs ?period ?reqs) = Some (Inr rs)"
      and len: "length rs = length ?pkgs"
      and nth: "\<forall>i < length ?pkgs.
          fst (getDownloads ?srv (?pkgs ! i) ?period
                 (?reqs @ map (point_url (nullish ?period ''last-month'')) (take i ?pkgs)))
          = Inr (rs ! i)"
    by blast
  from nth have "fst (getDownloads ?srv ''zustand'' ?period []) = Inr (rs ! 0)"
    by force
  with first have r0: "rs ! 0 = ?a" by simp
  from nth have "fst (getDownloads ?srv (?pkgs ! 1) ?period
      (?reqs @ map (point_url (nullish ?period ''last-month'')) (take 1 ?pkgs))) = Inr (rs ! 1)"
    by force
  with second have r1: "rs ! 1 = ?b" by (simp add: nullish_def)
  have "rs = [?a, ?b]"
  proof (rule nth_equalityI)
    show "length rs = length [?a, ?b]" using len by simp
  next
    fix i assume "i < length rs"
    then have "i = 0 \<or> i = 1" using len by auto
    then show "rs ! i = [?a, ?b] ! i" using r0 r1 by auto
  qed
  with run show ?thesis by simp
qed

text \<open>
  C4. When the fetch of some package fails, and completes, \<open>compareDownloads\<close> fails
  as a whole: its outcome is the error of a package whose fetch failed, never a sequence
  of results, and it is that package's error when no other package fails.
\<close>

theorem compareDownloads_failure:
  assumes "k < length packages" and "k \<in> set sched"
    and "fst (getDownloads srv (packages ! k) period
                (reqs @ map (point_url (nullish period ''last-month'')) (take k packages))) = Inl e"
  shows "\<exists>e'. fst (compareDownloads sched srv packages period reqs) = Some (Inl e')
     \<and> (\<exists>j < length packages.
           fst (getDownloads srv (packages ! j) period
                  (reqs @ map (point_url (nullish period ''last-month'')) (take j packages))) = Inl e')
     \<and> ((\<forall>j < length packages. j \<noteq> k \<longrightarrow> (\<exists>d.
           fst (getDownloads srv (packages ! j) period
                  (reqs @ map (point_url (nullish period ''last-month'')) (take j packages))) = Inr d))
         \<longrightarrow> e' = e)"
proof -
  let ?promises = "fst (map_getDownloads srv packages (nullish period ''last-month'') reqs)"
  have len: "length ?promises = length packages"
    by (rule map_getDownloads_length)
  have k: "k < length ?promises" and failed: "?promises ! k = Inl e"
    using assms(1,3) len by (simp_all add: promise_nth)
  from Promise_all_rejected [OF k failed assms(2)] obtain j e'
    where j: "j < length packages" and e': "?promises ! j = Inl e'"
      and run: "Promise_all sched ?promises = Some (Inl e')"
    using len by auto
  have rejected: "fst (getDownloads srv (packages ! j) period
      (reqs @ map (point_url (nullish period ''last-month'')) (take j packages))) = Inl e'"
    using j e' by (simp add: promise_nth)
  have only: "e' = e"
    if "\<forall>j < length packages. j \<noteq> k \<longrightarrow> (\<exists>d.
           fst (getDownloads srv (packages ! j) period
                  (reqs @ map (point_url (nullish period ''last-month'')) (take j packages))) = Inr d)"
  proof -
    have "j = k"
    proof (rule ccontr)
      assume "j \<noteq> k"
      with that j rejected show False by auto
    qed
    with rejected assms(3) show ?thesis by simp
  qed
  from run have "fst (compareDownloads sched srv packages period reqs) = Some (Inl e')"
    by (simp add: compareDownloads_fst)
  with j rejected only show ?thesis by blast
qed

theorem compareDownloads_failure_witness:
  "fst (compareDownloads [1, 0]
      (\<lambda>reqs url.
         if reqs = []
         then Inr \<lparr> ok = True, status = 200, body_text = [], body_json = Inr
                \<lparr> pt_package = Some ''zustand'', pt_downloads = 5000000,
                  pt_start = ''2025-01-01'', pt_end = ''2025-01-31'' \<rparr> \<rparr>
         else Inr \<lparr> ok = False, status = 404, body_text = ''Not found'',
                body_json = Inl (Error ''Unexpected token'') \<rparr>)
      [''zustand'', ''nonexistent''] None [])
   = Some (Inl (Error ''API error (404): Not found''))"
  (is "fst (compareDownloads ?sched ?srv ?pkgs ?period ?reqs) = Some (Inl ?e)")
proof -
  have n: "show_nat 404 = ''404''"
    by (simp add: show_nat.simps digit_def)
  have first: "\<exists>d. fst (getDownloads ?srv ''zustand'' ?period []) = Inr d"
    by (simp add: getDownloads_def fetchJson_def fetch_def)
  have second: "fst (getDownloads ?srv (?pkgs ! 1) ?period
      (?reqs @ map (point_url (nullish ?period ''last-month'')) (take 1 ?pkgs))) = Inl ?e"
    by (simp add: getDownloads_def fetchJson_def fetch_def api_error_def n)
  have others: "\<forall>j < length ?pkgs. j \<noteq> 1 \<longrightarrow> (\<exists>d.
      fst (getDownloads ?srv (?pkgs ! j) ?period
             (?reqs @ map (point_url (nullish ?period ''last-month'')) (take j ?pkgs))) = Inr d)"
    using first by (auto simp: less_Suc_eq)
  have "1 < length ?pkgs" and "1 \<in> set ?sched" by simp_all
  from compareDownloads_failure [OF this second] others show ?thesis
    by blast
qed

text \<open>
  C10. \<open>compareDownloads\<close> does not look at the length of its input: for every list it
  issues one request for each name, in order; for the empty list it issues none and
  returns the empty sequence; and when every fetch completes and succeeds it returns as
  many results as there are names.
\<close>

theorem compareDownloads_any_length:
  "snd (compareDownloads sched srv packages period reqs)
     = reqs @ map (point_url (nullish period ''last-month'')) packages
   \<and> fst (compareDownloads sched srv [] period reqs) = Some (Inr [])
   \<and> snd (compareDownloads sched srv [] period reqs) = reqs
   \<and> ((\<forall>i < length packages. i \<in> set sched)
       \<and> (\<forall>i < length packages. \<exists>d.
            fst (getDownloads srv (packages ! i) period
                   (reqs @ map (point_url (nullish period ''last-month'')) (take i packages))) = Inr d)
       \<longrightarrow> (\<exists>rs. fst (compareDownloads sched srv packages period reqs) = Some (Inr rs)
              \<and> length rs = length packages))"
proof -
  have "fst (compareDownloads sched srv [] period reqs) = Some (Inr [])"
    by (simp add: compareDownloads_fst Promise_all_def)
  moreover have "\<exists>rs. fst (compareDownloads sched srv packages period reqs) = Some (Inr rs)
      \<and> length rs = length packages"
    if "\<forall>i < length packages. i \<in> set sched"
      and "\<forall>i < length packages. \<exists>d.
            fst (getDownloads srv (packages ! i) period
                   (reqs @ map (point_url (nullish period ''last-month'')) (take i packages))) = Inr d"
    using compareDownloads_fulfilled [OF that] by blast
  ultimately show ?thesis
    by (simp add: compareDownloads_requests)
qed

theorem compareDownloads_any_length_witness:
  "fst (compareDownloads [] (\<lambda>reqs url. Inr \<lparr> ok = True, status = 200, body_text = [],
          body_json = Inr \<lparr> pt_package = None, pt_downloads = 7,
            pt_start = ''2025-01-01'', pt_end = ''2025-01-31'' \<rparr> \<rparr>) [] None [])
     = Some (Inr [])
   \<and> snd (compareDownloads [] (\<lambda>reqs url. Inr \<lparr> ok = True, status = 200, body_text = [],
          body_json = Inr \<lparr> pt_package = None, pt_downloads = 7,
            pt_start = ''2025-01-01'', pt_end = ''2025-01-31'' \<rparr> \<rparr>) [] None [])
     = []
   \<and> (\<exists>rs. fst (compareDownloads [0] (\<lambda>reqs url. Inr \<lparr> ok = True, status = 200, body_text = [],
          body_json = Inr \<lparr> pt_package = None, pt_downloads = 7,
            pt_start = ''2025-01-01'', pt_end = ''2025-01-31'' \<rparr> \<rparr>) [''a''] None [])
        = Some (Inr rs) \<and> length rs = 1)
   \<and> (\<exists>rs. fst (compareDownloads (rev [0..<11])
          (\<lambda>reqs url. Inr \<lparr> ok = True, status = 200, body_text = [],
          body_json = Inr \<lparr> pt_package = None, pt_downloads = 7,
            pt_start = ''2025-01-01'', pt_end = ''2025-01-31'' \<rparr> \<rparr>)
          [''a'', ''b'', ''c'', ''d'', ''e'', ''f'', ''g'', ''h'', ''i'', ''j'', ''k''] None [])
        = Some (Inr rs) \<and> length rs = 11)
   \<and> length (snd (compareDownloads (rev [0..<11])
          (\<lambda>reqs url. Inr \<lparr> ok = True, status = 200, body_text = [],
          body_json = Inr \<lparr> pt_package = None, pt_downloads = 7,
            pt_start = ''2025-01-01'', pt_end = ''2025-01-31'' \<rparr> \<rparr>)
          [''a'', ''b'', ''c'', ''d'', ''e'', ''f'', ''g'', ''h'', ''i'', ''j'', ''k''] None []))
     = 11"
  (is "fst (compareDownloads [] ?srv [] ?period ?reqs) = _ \<and> _ \<and>
       (\<exists>rs. fst (compareDownloads ?one _ ?pkg1 _ _) = _ \<and> _) \<and>
       (\<exists>rs. fst (compareDownloads ?all _ ?pkgs _ _) = _ \<and> _) \<and> _")
proof -
  have ok: "\<exists>d. fst (getDownloads ?srv name ?period rq) = Inr d" for name rq
    by (simp add: getDownloads_def fetchJson_def fetch_def)
  have c1: "\<forall>i < length ?pkg1. i \<in> set ?one" by simp
  have c11: "\<forall>i < length ?pkgs. i \<in> set ?all" by simp
  from compareDownloads_any_length [of "[]" ?srv "[]" ?period ?reqs]
  have empty: "fst (compareDownloads [] ?srv [] ?period ?reqs) = Some (Inr [])
      \<and> snd (compareDownloads [] ?srv [] ?period ?reqs) = []"
    by simp
  have l1: "length ?pkg1 = 1" and l11: "length ?pkgs = 11"
    by simp_all
  have h1: "(\<forall>i < length ?pkg1. i \<in> set ?one)
      \<and> (\<forall>i < length ?pkg1. \<exists>d.
            fst (getDownloads ?srv (?pkg1 ! i) ?period
                   (?reqs @ map (point_url (nullish ?period ''last-month'')) (take i ?pkg1))) = Inr d)"
    using c1 ok by blast
  have h11: "(\<forall>i < length ?pkgs. i \<in> set ?all)
      \<and> (\<forall>i < length ?pkgs. \<exists>d.
            fst (getDownloads ?srv (?pkgs ! i) ?period
                   (?reqs @ map (point_url (nullish ?period ''last-month'')) (take i ?pkgs))) = Inr d)"
    using c11 ok by blast
  from compareDownloads_any_length [of ?one ?srv ?pkg1 ?period ?reqs] h1
  have "\<exists>rs. fst (compareDownloads ?one ?srv ?pkg1 ?period ?reqs) = Some (Inr rs)
      \<and> length rs = length ?pkg1"
    by blast
  then have one: "\<exists>rs. fst (compareDownloads ?one ?srv ?pkg1 ?period ?reqs) = Some (Inr rs)
      \<and> length rs = 1"
    by (simp only: l1)
  from compareDownloads_any_length [of ?all ?srv ?pkgs ?period ?reqs] h11
  have "(\<exists>rs. fst (compareDownloads ?all ?srv ?pkgs ?period ?reqs) = Some (Inr rs)
      \<and> length rs = length ?pkgs)
      \<and> snd (compareDownloads ?all ?srv ?pkgs ?period ?reqs)
          = ?reqs @ map (point_url (nullish ?period ''last-month'')) ?pkgs"
    by blast
  then have many: "(\<exists>rs. fst (compareDownloads ?all ?srv ?pkgs ?period ?reqs) = Some (Inr rs)
      \<and> length rs = 11)
      \<and> length (snd (compareDownloads ?all ?srv ?pkgs ?period ?reqs)) = 11"
    using l11 by (simp only: length_append length_map list.size(3)) simp
  from empty one many show ?thesis
    by blast
qed

end
